theory Spec2Isabelle
  imports Complex_Main "HOL-Library.Sublist" "HOL-Library.Log_Nat"
begin

section \<open>JavaScript numbers\<close>

text \<open>
  A JavaScript number is an IEEE 754 double. A finite double is a rational, and a division
  or multiplication of two doubles gives the double nearest to the exact result, a tie going
  to the one with the even significand. \<open>fl64\<close> is this rounding: a value \<open>x\<close> with
  \<open>2^e \<le> |x| < 2^(e+1)\<close> is rounded to a multiple of \<open>2^(e-52)\<close> (53 significant bits),
  and below \<open>2^(-1022)\<close> to a multiple of \<open>2^(-1074)\<close> (the subnormal numbers).

  Two things are left out. The inputs are finite doubles; \<^verbatim>\<open>NaN\<close> and the infinities as inputs
  are not modelled. A result of magnitude \<open>2^1024\<close> or more, which IEEE arithmetic replaces
  by an infinity, keeps its magnitude here, and index arithmetic on integers is exact here,
  as it is in doubles up to \<open>2^53\<close>. Beyond these bounds the code only adds integers to
  the value and compares it with 0 and with \<open>count - 1\<close>, so for count and overscan below
  \<open>2^50\<close> the rows returned are the same; the positions of a row are products and are the
  same as long as they stay below \<open>2^1024\<close>. A division by zero gives no number at all
  and is treated where it occurs.
\<close>

definition pow2 :: "int \<Rightarrow> rat" where
  "pow2 k = (if 0 \<le> k then 2 ^ nat k else 1 / 2 ^ nat (- k))"

text \<open>Rounding to the nearest integer, a tie going to the even one.\<close>

definition roundHalfEven :: "rat \<Rightarrow> int" where
  "roundHalfEven z =
     (let f = \<lfloor>z\<rfloor>; d = z - of_int f
      in if d < 1 / 2 then f else if 1 / 2 < d then f + 1 else if even f then f else f + 1)"

text \<open>
  The exponent of a positive rational: the \<open>e\<close> with \<open>2^e \<le> x < 2^(e+1)\<close>, from the number of
  bits of the integer part of \<open>x\<close>, or of \<open>1 / x\<close> when \<open>x < 1\<close>.
\<close>

definition binade :: "rat \<Rightarrow> int" where
  "binade x = (if 1 \<le> x then bitlen \<lfloor>x\<rfloor> - 1 else - bitlen (\<lceil>1 / x\<rceil> - 1))"

definition roundMagnitude :: "rat \<Rightarrow> rat" where
  "roundMagnitude x =
     (if x = 0 then 0
      else let q = pow2 (max (- 1022) (binade x) - 52)
           in of_int (roundHalfEven (x / q)) * q)"

definition fl64 :: "rat \<Rightarrow> rat" where
  "fl64 x = (if x < 0 then - roundMagnitude (- x) else roundMagnitude x)"

text \<open>\<^verbatim>\<open>a / b\<close> for \<open>b \<noteq> 0\<close>, and \<^verbatim>\<open>a * b\<close>.\<close>

definition fdiv :: "rat \<Rightarrow> rat \<Rightarrow> rat" where
  "fdiv a b = fl64 (a / b)"

definition fmul :: "rat \<Rightarrow> rat \<Rightarrow> rat" where
  "fmul a b = fl64 (a * b)"

section \<open>Virtual scrolling (useVirtualScroll)\<close>

text \<open>
  The hook \<^verbatim>\<open>useVirtualScroll\<close> computes, from the options and the scroll position it
  keeps in its state, the list of rows to materialise. Pixel quantities (\<^verbatim>\<open>estimateSize\<close>,
  \<^verbatim>\<open>containerHeight\<close>, \<^verbatim>\<open>scrollTop\<close>) are JavaScript numbers and may be fractional or
  negative: rationals, divided and multiplied as doubles are. \<^verbatim>\<open>count\<close> ("Total number of
  items") and \<^verbatim>\<open>overscan\<close> ("Number of extra rows to render above/below viewport") are
  numbers of rows: naturals. \<^verbatim>\<open>overscan\<close> is optional and defaults to 10.
\<close>

record VirtualScrollOptions =
  count :: nat
  estimateSize :: rat
  overscan :: "nat option"
  containerHeight :: rat
  enabled :: bool

record VirtualItem =
  item_index :: int
  item_start :: rat
  item_end :: rat
  item_size :: rat

record UseVirtualScrollReturn =
  virtualRows :: "VirtualItem list"
  totalHeight :: rat
  rowHeight :: rat

definition overscanOf :: "VirtualScrollOptions \<Rightarrow> nat" where
  "overscanOf options = (case overscan options of None \<Rightarrow> 10 | Some n \<Rightarrow> n)"

text \<open>The three local constants of the memoised computation, as functions of its inputs.\<close>

definition startIndex :: "VirtualScrollOptions \<Rightarrow> rat \<Rightarrow> int" where
  "startIndex options scrollTop =
     max 0 (\<lfloor>fdiv scrollTop (estimateSize options)\<rfloor> - int (overscanOf options))"

definition visibleCount :: "VirtualScrollOptions \<Rightarrow> int" where
  "visibleCount options = \<lceil>fdiv (containerHeight options) (estimateSize options)\<rceil>"

definition endIndex :: "VirtualScrollOptions \<Rightarrow> rat \<Rightarrow> int" where
  "endIndex options scrollTop =
     min (int (count options) - 1)
         (startIndex options scrollTop + visibleCount options + int (overscanOf options) * 2)"

definition mkItem :: "VirtualScrollOptions \<Rightarrow> int \<Rightarrow> VirtualItem" where
  "mkItem options i =
     \<lparr>item_index = i,
      item_start = fmul (of_int i) (estimateSize options),
      item_end = fmul (of_int i + 1) (estimateSize options),
      item_size = estimateSize options\<rparr>"

text \<open>
  The loop \<^verbatim>\<open>for (let i = startIndex; i <= endIndex; i++)\<close> pushes one item per integer
  of \<open>[startIndex..endIndex]\<close>.

  With \<^verbatim>\<open>estimateSize = 0\<close> the two divisions are divisions by zero, which in JavaScript
  give \<^verbatim>\<open>Infinity\<close>, \<^verbatim>\<open>-Infinity\<close> or \<^verbatim>\<open>NaN\<close> and not HOL's \<open>x / 0 = 0\<close>; that case is
  written out. A positive or zero \<^verbatim>\<open>scrollTop\<close> makes \<^verbatim>\<open>startIndex\<close> \<^verbatim>\<open>Infinity\<close> or \<^verbatim>\<open>NaN\<close>,
  and the loop condition is false at once. A negative \<^verbatim>\<open>scrollTop\<close> makes it
  \<^verbatim>\<open>Math.max(0, -Infinity) = 0\<close>; then \<^verbatim>\<open>visibleCount\<close> is \<^verbatim>\<open>Infinity\<close> for a positive
  \<^verbatim>\<open>containerHeight\<close>, so that \<^verbatim>\<open>endIndex = count - 1\<close> and every row is pushed, and it is
  \<^verbatim>\<open>NaN\<close> or \<^verbatim>\<open>-Infinity\<close> otherwise, so that no row is.
\<close>

definition visibleItems :: "VirtualScrollOptions \<Rightarrow> rat \<Rightarrow> VirtualItem list" where
  "visibleItems options scrollTop =
     (if \<not> enabled options \<or> count options = 0 then []
      else if estimateSize options = 0 then
        (if scrollTop < 0 \<and> 0 < containerHeight options
         then map (mkItem options) [0..int (count options) - 1] else [])
      else map (mkItem options) [startIndex options scrollTop..endIndex options scrollTop])"

definition useVirtualScroll :: "VirtualScrollOptions \<Rightarrow> rat \<Rightarrow> UseVirtualScrollReturn" where
  "useVirtualScroll options scrollTop =
     \<lparr>virtualRows = visibleItems options scrollTop,
      totalHeight = fmul (of_nat (count options)) (estimateSize options),
      rowHeight = estimateSize options\<rparr>"

text \<open>
  The window of the design document, \<^verbatim>\<open>computeWindow\<close>, written from its words:
  \<^verbatim>\<open>rawStart = floor(scrollOffset / rowExtent)\<close>, \<^verbatim>\<open>visibleCount = ceil(viewportExtent / rowExtent)\<close>,
  \<^verbatim>\<open>startIndex = max(0, rawStart - overscan)\<close>,
  \<^verbatim>\<open>endIndex = min(totalCount - 1, rawStart + visibleCount + overscan)\<close>. Its two quotients
  are quotients of the same numbers as the program's and are taken as the program takes them.
\<close>

definition spec_computeWindow :: "nat \<Rightarrow> rat \<Rightarrow> rat \<Rightarrow> rat \<Rightarrow> nat \<Rightarrow> int \<times> int" where
  "spec_computeWindow totalCount rowExtent viewportExtent scrollOffset ovs =
     (let rawStart = \<lfloor>fdiv scrollOffset rowExtent\<rfloor>;
          visCount = \<lceil>fdiv viewportExtent rowExtent\<rceil>
      in (max 0 (rawStart - int ovs),
          min (int totalCount - 1) (rawStart + visCount + int ovs)))"

section \<open>CSV export (generateCSV)\<close>

text \<open>
  The export code observes a cell value in two ways only: \<^verbatim>\<open>value == null\<close> and
  \<^verbatim>\<open>String(value)\<close>. A value is therefore \<open>None\<close> when it is \<^verbatim>\<open>null\<close> or \<^verbatim>\<open>undefined\<close>, and
  \<open>Some s\<close> when its string form is \<open>s\<close>; for a string value, \<open>s\<close> is the value itself.
  A data row is an object: a lookup from property names to values, \<open>None\<close> for a property
  that is missing.
\<close>

type_synonym jsvalue = "string option"
type_synonym row = "string \<Rightarrow> jsvalue"

datatype accessor = Key string | Fn "row \<Rightarrow> jsvalue"

record column =
  col_id :: string
  header :: string
  accessor :: accessor

record CSVExportOptions =
  columns :: "column list"
  data :: "row list"

abbreviation dquote :: char where "dquote \<equiv> CHR 0x22"
abbreviation comma :: char where "comma \<equiv> CHR 0x2C"
abbreviation CR :: char where "CR \<equiv> CHR 0x0D"
abbreviation LF :: char where "LF \<equiv> CHR 0x0A"

definition getCellValue :: "row \<Rightarrow> accessor \<Rightarrow> jsvalue" where
  "getCellValue r acc = (case acc of Fn f \<Rightarrow> f r | Key k \<Rightarrow> r k)"

text \<open>\<^verbatim>\<open>str.replace(/"/g, '""')\<close>: every quote character is doubled.\<close>

definition replaceQuotes :: "string \<Rightarrow> string" where
  "replaceQuotes str = concat (map (\<lambda>c. if c = dquote then [dquote, dquote] else [c]) str)"

definition escapeCSV :: "jsvalue \<Rightarrow> string" where
  "escapeCSV v =
     (case v of
        None \<Rightarrow> []
      | Some str \<Rightarrow>
          if comma \<in> set str \<or> dquote \<in> set str \<or> LF \<in> set str \<or> CR \<in> set str
          then [dquote] @ replaceQuotes str @ [dquote]
          else str)"

text \<open>\<^verbatim>\<open>Array.prototype.join\<close> on an array of strings.\<close>

fun join :: "string \<Rightarrow> string list \<Rightarrow> string" where
  "join sep [] = []"
| "join sep [x] = x"
| "join sep (x # y # ys) = x @ sep @ join sep (y # ys)"

definition generateCSV :: "CSVExportOptions \<Rightarrow> string" where
  "generateCSV options =
     (let headerLine = join [comma] (map (\<lambda>col. escapeCSV (Some (header col))) (columns options));
          rows = map (\<lambda>r. join [comma]
                    (map (\<lambda>col. escapeCSV (getCellValue r (accessor col))) (columns options)))
                   (data options)
      in join [CR, LF] (headerLine # rows))"

subsection \<open>Reading the text back by the documented rules\<close>

text \<open>
  The documented format: rows terminated by CRLF, fields separated by commas, a field that
  contains a comma, a quote character or a line break wrapped in quotes with its quote
  characters doubled. \<open>spec_parseCSV\<close> reads a text by these rules, one character at a
  time. A row ends at its CRLF, so the end of the text right after a CRLF, or at the very
  start, begins no further row; a last row whose terminator is missing is still read, once
  it has begun with a character. The result is \<open>None\<close> for a text that does not follow the
  rules (a quote inside an unquoted field, a bare line break outside quotes, a quoted field
  that is not closed or is followed by something else than a separator). The reader is not
  part of the program: it is what the round trip is measured against.
\<close>

datatype pmode = FieldStart | Unquoted | Quoted | QuoteSeen | SeenCR

fun spec_scan ::
  "pmode \<Rightarrow> string list list \<Rightarrow> string list \<Rightarrow> string \<Rightarrow> string \<Rightarrow> string list list option"
where
  "spec_scan m rows flds cur [] =
     (if m = Quoted \<or> m = SeenCR then None
      else if m = FieldStart \<and> flds = [] then Some rows
      else Some (rows @ [flds @ [cur]]))"
| "spec_scan FieldStart rows flds cur (c # cs) =
     (if c = dquote then spec_scan Quoted rows flds cur cs
      else if c = comma then spec_scan FieldStart rows (flds @ [cur]) [] cs
      else if c = CR then spec_scan SeenCR rows flds cur cs
      else if c = LF then None
      else spec_scan Unquoted rows flds (cur @ [c]) cs)"
| "spec_scan Unquoted rows flds cur (c # cs) =
     (if c = dquote then None
      else if c = comma then spec_scan FieldStart rows (flds @ [cur]) [] cs
      else if c = CR then spec_scan SeenCR rows flds cur cs
      else if c = LF then None
      else spec_scan Unquoted rows flds (cur @ [c]) cs)"
| "spec_scan Quoted rows flds cur (c # cs) =
     (if c = dquote then spec_scan QuoteSeen rows flds cur cs
      else spec_scan Quoted rows flds (cur @ [c]) cs)"
| "spec_scan QuoteSeen rows flds cur (c # cs) =
     (if c = dquote then spec_scan Quoted rows flds (cur @ [dquote]) cs
      else if c = comma then spec_scan FieldStart rows (flds @ [cur]) [] cs
      else if c = CR then spec_scan SeenCR rows flds cur cs
      else None)"
| "spec_scan SeenCR rows flds cur (c # cs) =
     (if c = LF then spec_scan FieldStart (rows @ [flds @ [cur]]) [] [] cs else None)"

definition spec_parseCSV :: "string \<Rightarrow> string list list option" where
  "spec_parseCSV text = spec_scan FieldStart [] [] [] text"

text \<open>The string a cell stands for: its string form, the empty string for a missing value.\<close>

definition cellText :: "jsvalue \<Rightarrow> string" where
  "cellText v = (case v of None \<Rightarrow> [] | Some s \<Rightarrow> s)"

text \<open>The exported grid: the header labels, then the cell texts of each data row.\<close>

definition grid :: "CSVExportOptions \<Rightarrow> string list list" where
  "grid options =
     map header (columns options) #
     map (\<lambda>r. map (\<lambda>col. cellText (getCellValue r (accessor col))) (columns options))
         (data options)"

text \<open>Notions used in the proofs about the parser.\<close>

definition special :: "char \<Rightarrow> bool" where
  "special c \<longleftrightarrow> c = comma \<or> c = dquote \<or> c = LF \<or> c = CR"

definition fieldEnd :: "string \<Rightarrow> pmode" where
  "fieldEnd v =
     (if \<exists>c \<in> set v. special c then QuoteSeen else if v = [] then FieldStart else Unquoted)"

definition csvLine :: "string list \<Rightarrow> string" where
  "csvLine vs = join [comma] (map (\<lambda>v. escapeCSV (Some v)) vs)"

section \<open>The table hook (useDataTable)\<close>

subsection \<open>Global filter\<close>

text \<open>
  A row of the table library, as far as the code reads it: its id, the data object it was
  built from, and the values of its cells (\<^verbatim>\<open>row.getAllCells().map(cell => cell.getValue())\<close>).
  \<^verbatim>\<open>toLowerCase\<close> is taken on ASCII letters; \<^verbatim>\<open>val.includes(search)\<close> is substring search.
  The filter value is the hook's \<^verbatim>\<open>globalFilter\<close> state, a string.
\<close>

record 'r Row =
  row_id :: string
  original :: 'r
  cellValues :: "jsvalue list"

definition toLowerChar :: "char \<Rightarrow> char" where
  "toLowerChar c =
     (case map_of (zip ''ABCDEFGHIJKLMNOPQRSTUVWXYZ'' ''abcdefghijklmnopqrstuvwxyz'') c of
        None \<Rightarrow> c
      | Some l \<Rightarrow> l)"

definition toLowerCase :: "string \<Rightarrow> string" where
  "toLowerCase s = map toLowerChar s"

fun str_includes :: "string \<Rightarrow> string \<Rightarrow> bool" where
  "str_includes [] search = (search = [])"
| "str_includes (c # cs) search = (prefix search (c # cs) \<or> str_includes cs search)"

definition globalFilterFn :: "'r Row \<Rightarrow> string \<Rightarrow> string \<Rightarrow> bool" where
  "globalFilterFn r columnId filterValue =
     (let search = toLowerCase filterValue
      in if search = [] then True
         else
           (let rowValues =
                  map (\<lambda>v. case v of None \<Rightarrow> [] | Some s \<Rightarrow> toLowerCase s) (cellValues r)
            in list_ex (\<lambda>val. str_includes val search) rowValues))"

subsection \<open>State and clearAllFilters\<close>

record PaginationState =
  pageIndex :: nat
  pageSize :: nat

record ColumnSort =
  sort_id :: string
  desc :: bool

record ColumnFilter =
  filter_id :: string
  filter_value :: jsvalue

record TableState =
  sorting :: "ColumnSort list"
  columnFilters :: "ColumnFilter list"
  globalFilter :: string
  rowSelection :: "string \<Rightarrow> bool option"
  pagination :: PaginationState

text \<open>
  \<^verbatim>\<open>setGlobalFilter('')\<close>, \<^verbatim>\<open>setColumnFilters([])\<close> and
  \<^verbatim>\<open>setPagination((prev) => ({ ...prev, pageIndex: 0 }))\<close>, applied to the hook's state.
\<close>

definition clearAllFilters :: "TableState \<Rightarrow> TableState" where
  "clearAllFilters st =
     st\<lparr>globalFilter := [],
        columnFilters := [],
        pagination := (pagination st)\<lparr>pageIndex := 0\<rparr>\<rparr>"

subsection \<open>Row models and the rows handed to the export\<close>

text \<open>
  The table instance, as far as the hook and the export handler read it: the row models
  \<^verbatim>\<open>getCoreRowModel().rows\<close>, \<^verbatim>\<open>getFilteredRowModel().rows\<close>, \<^verbatim>\<open>getSortedRowModel().rows\<close>
  and \<^verbatim>\<open>getSelectedRowModel().rows\<close>.
\<close>

record 'r Table =
  getCoreRowModel :: "'r Row list"
  getFilteredRowModel :: "'r Row list"
  getSortedRowModel :: "'r Row list"
  getSelectedRowModel :: "'r Row list"

text \<open>\<^verbatim>\<open>selectedRows\<close> of the hook and \<^verbatim>\<open>exportData\<close> of \<^verbatim>\<open>handleCSVExport\<close>.\<close>

definition selectedRows :: "bool \<Rightarrow> 'r Table \<Rightarrow> 'r list" where
  "selectedRows enableRowSelection table =
     (if \<not> enableRowSelection then [] else map original (getSelectedRowModel table))"

definition exportData :: "bool \<Rightarrow> 'r Table \<Rightarrow> 'r list" where
  "exportData enableRowSelection table =
     (if length (selectedRows enableRowSelection table) > 0
      then selectedRows enableRowSelection table
      else map original (getFilteredRowModel table))"

subsection \<open>The table library's pipeline\<close>

text \<open>
  The row models themselves are computed by \<^verbatim>\<open>useReactTable\<close>, \<^verbatim>\<open>getFilteredRowModel()\<close>,
  \<^verbatim>\<open>getSortedRowModel()\<close> and \<^verbatim>\<open>getSelectedRowModel()\<close> of the table library, which the hook
  imports and whose code is not among the repository's files. The definitions of this
  subsection follow the design document instead. What comes from the hook itself is which
  stages it installs: filtering when \<^verbatim>\<open>enableColumnFilters || enableGlobalFilter\<close>, sorting
  when \<^verbatim>\<open>enableSorting\<close>, and \<^verbatim>\<open>globalFilterFn\<close> as the global predicate.
\<close>

text \<open>
  Modelled from the spec: the library's column definition is missing; a column of the design
  document has an id, an accessor, the flags sortable and filterable, and \<open>compare\<close>, the
  comparison of two rows by this column (the custom comparator or the default order), with a
  negative, zero or positive result.
\<close>

record 'r Column =
  column_id :: string
  accessorFn :: "'r \<Rightarrow> jsvalue"
  sortable :: bool
  filterable :: bool
  compare :: "'r \<Rightarrow> 'r \<Rightarrow> int"

text \<open>
  Modelled from the spec: the options of \<^verbatim>\<open>useReactTable\<close> are missing; these are the options
  of the hook that reach the pipeline, with the columns as above and the row identity
  function of the data model.
\<close>

record 'r UseDataTableOptions =
  tableData :: "'r list"
  tableColumns :: "'r Column list"
  enableSorting :: bool
  enableColumnFilters :: bool
  enableGlobalFilter :: bool
  enableRowSelection :: bool
  getRowId :: "'r \<Rightarrow> string"

text \<open>
  Modelled from the spec: the library's column lookup is missing; a column is found by its
  id, and a reference to an id that no column has is ignored by its user.
\<close>

definition findColumn :: "'r Column list \<Rightarrow> string \<Rightarrow> 'r Column option" where
  "findColumn cols cid = find (\<lambda>c. column_id c = cid) cols"

text \<open>
  Modelled from the spec: the library's row comparison is missing; rows are compared key by
  key through the sort state in priority order, the direction flips the sign of the column's
  result, and the first non-zero result decides.
\<close>

fun compareRows :: "'r Column list \<Rightarrow> ColumnSort list \<Rightarrow> 'r Row \<Rightarrow> 'r Row \<Rightarrow> int" where
  "compareRows cols [] a b = 0"
| "compareRows cols (k # ks) a b =
     (case findColumn cols (sort_id k) of
        None \<Rightarrow> compareRows cols ks a b
      | Some c \<Rightarrow>
          (let r = (if desc k then - compare c (original a) (original b)
                    else compare c (original a) (original b))
           in if r \<noteq> 0 then r else compareRows cols ks a b))"

text \<open>
  Modelled from the spec: the library's sort is missing; the design document asks for a
  stable sort, "merge sort or equivalent". This is insertion sort: a row is put in front of
  the first row of the sorted rest that it does not come after.
\<close>

fun insertRow :: "('a \<Rightarrow> 'a \<Rightarrow> int) \<Rightarrow> 'a \<Rightarrow> 'a list \<Rightarrow> 'a list" where
  "insertRow cmp x [] = [x]"
| "insertRow cmp x (y # ys) = (if cmp x y \<le> 0 then x # y # ys else y # insertRow cmp x ys)"

text \<open>Modelled from the spec: the library's sort is missing; see \<open>insertRow\<close>.\<close>

definition sortRows :: "('a \<Rightarrow> 'a \<Rightarrow> int) \<Rightarrow> 'a list \<Rightarrow> 'a list" where
  "sortRows cmp rows = foldr (insertRow cmp) rows []"

text \<open>
  Modelled from the spec: the library's column filter is missing; the per-column predicate
  is case-insensitive containment of the filter text in the stringified value, an empty
  text is no filter, and a filter on a non-filterable or unknown column is ignored.
\<close>

definition columnFilterPasses :: "'r Column list \<Rightarrow> 'r Row \<Rightarrow> ColumnFilter \<Rightarrow> bool" where
  "columnFilterPasses cols r f =
     (case findColumn cols (filter_id f) of
        None \<Rightarrow> True
      | Some c \<Rightarrow>
          \<not> filterable c \<or> cellText (filter_value f) = [] \<or>
          str_includes (toLowerCase (cellText (accessorFn c (original r))))
                   (toLowerCase (cellText (filter_value f))))"

text \<open>
  Modelled from the spec: the library's filter stage is missing; a row is kept iff all
  per-column predicates pass and the global filter is empty or the global predicate (the
  hook's \<open>globalFilterFn\<close>) passes.
\<close>

definition keepRow :: "'r UseDataTableOptions \<Rightarrow> TableState \<Rightarrow> 'r Row \<Rightarrow> bool" where
  "keepRow options st r \<longleftrightarrow>
     list_all (columnFilterPasses (tableColumns options) r) (columnFilters st) \<and>
     (globalFilter st = [] \<or> globalFilterFn r [] (globalFilter st))"

text \<open>
  Modelled from the spec: the library's row construction is missing; a row carries its
  identity, its data object and the values of its columns.
\<close>

definition mkRow :: "'r UseDataTableOptions \<Rightarrow> 'r \<Rightarrow> 'r Row" where
  "mkRow options d =
     \<lparr>row_id = getRowId options d,
      original = d,
      cellValues = map (\<lambda>c. accessorFn c d) (tableColumns options)\<rparr>"

text \<open>
  Modelled from the spec: \<^verbatim>\<open>useReactTable\<close> and its row models are missing; the view is
  derived by the filter stage followed by the sort stage, and the selected rows are the rows
  of the dataset whose identity is selected.
\<close>

definition useReactTable :: "'r UseDataTableOptions \<Rightarrow> TableState \<Rightarrow> 'r Table" where
  "useReactTable options st =
     (let core = map (mkRow options) (tableData options);
          filtered = (if enableColumnFilters options \<or> enableGlobalFilter options
                      then filter (keepRow options st) core else core);
          sorted = (if enableSorting options
                    then sortRows (compareRows (tableColumns options) (sorting st)) filtered
                    else filtered)
      in \<lparr>getCoreRowModel = core,
          getFilteredRowModel = filtered,
          getSortedRowModel = sorted,
          getSelectedRowModel = filter (\<lambda>r. rowSelection st (row_id r) = Some True) core\<rparr>)"

text \<open>
  Modelled from the spec: "ties on all active sort keys"; two rows tie when every key of the
  sort state that names a column compares them as equal.
\<close>

definition keysTie :: "'r Column list \<Rightarrow> ColumnSort list \<Rightarrow> 'r Row \<Rightarrow> 'r Row \<Rightarrow> bool" where
  "keysTie cols spec a b =
     list_all (\<lambda>k. case findColumn cols (sort_id k) of
                      None \<Rightarrow> True
                    | Some c \<Rightarrow> compare c (original a) (original b) = 0) spec"

subsection \<open>Example tables\<close>

text \<open>
  The rows of the design document's scenarios have an id and a number \<open>v\<close>; here a row is
  the triple of its id, the string form of \<open>v\<close> and \<open>v\<close>. The table has the one column
  \<open>v\<close>, compared numerically, and every stage enabled; \<open>sortedByValue\<close> is the state after
  sorting by \<open>v\<close> ascending, with no filter and no row selected.
\<close>

definition valueColumn :: "(string \<times> string \<times> int) Column" where
  "valueColumn =
     \<lparr>column_id = ''v'', accessorFn = (\<lambda>d. Some (fst (snd d))), sortable = True,
      filterable = True, compare = (\<lambda>x y. snd (snd x) - snd (snd y))\<rparr>"

definition scenarioOptions ::
  "(string \<times> string \<times> int) list \<Rightarrow> (string \<times> string \<times> int) UseDataTableOptions"
where
  "scenarioOptions ds =
     \<lparr>tableData = ds, tableColumns = [valueColumn],
      enableSorting = True, enableColumnFilters = True, enableGlobalFilter = True,
      enableRowSelection = True, getRowId = fst\<rparr>"

definition sortedByValue :: TableState where
  "sortedByValue =
     \<lparr>sorting = [\<lparr>sort_id = ''v'', desc = False\<rparr>], columnFilters = [], globalFilter = [],
      rowSelection = (\<lambda>i. None), pagination = \<lparr>pageIndex = 0, pageSize = 10\<rparr>\<rparr>"

section \<open>Properties of the rounding\<close>

text \<open>
  What the proofs below need of \<open>fl64\<close>: it never crosses an integer of magnitude up to
  \<open>2^53\<close>. Such an integer is a double, so a value on one side of it is rounded to a double
  on the same side, or to the integer itself.
\<close>

lemma pow2_powi: "pow2 k = 2 powi k"
  by (simp add: pow2_def power_int_def inverse_eq_divide power_one_over)

lemma pow2_pos: "0 < pow2 k"
  by (simp add: pow2_def)

lemma pow2_add: "pow2 (a + b) = pow2 a * pow2 b"
  by (simp add: pow2_powi power_int_add)

lemma pow2_nonneg_eq: "0 \<le> k \<Longrightarrow> pow2 k = 2 ^ nat k"
  by (simp add: pow2_def)

lemma pow2_mono: "a \<le> b \<Longrightarrow> pow2 a \<le> pow2 b"
  by (simp add: pow2_powi power_int_increasing)

lemma pow2_strict_mono: "a < b \<Longrightarrow> pow2 a < pow2 b"
  by (simp add: pow2_powi power_int_strict_increasing)

lemma binade_lower: assumes "0 < x" shows "pow2 (binade x) \<le> x"
proof (cases "1 \<le> x")
  case True
  then have f: "0 < \<lfloor>x\<rfloor>" by simp
  then have b1: "1 \<le> bitlen \<lfloor>x\<rfloor>" using bitlen_eq_zero_iff [of "\<lfloor>x\<rfloor>"] bitlen_nonneg [of "\<lfloor>x\<rfloor>"] by linarith
  have "(2::int) ^ nat (bitlen \<lfloor>x\<rfloor> - 1) \<le> \<lfloor>x\<rfloor>" using bitlen_bounds [OF f] by simp
  then have "(of_int ((2::int) ^ nat (bitlen \<lfloor>x\<rfloor> - 1)) :: rat) \<le> of_int \<lfloor>x\<rfloor>" by (simp only: of_int_le_iff)
  also have "\<dots> \<le> x" by simp
  finally show ?thesis using True b1 by (simp add: binade_def pow2_def)
next
  case False
  let ?m = "\<lceil>1 / x\<rceil>"
  let ?k = "bitlen (?m - 1)"
  from False assms have y: "1 < 1 / x" by simp
  then have m2: "2 \<le> ?m" by (simp add: le_ceiling_iff)
  then have pos: "0 < ?m - 1" by simp
  have "?m - 1 < 2 ^ nat ?k" using bitlen_bounds [OF pos] by simp
  then have "?m \<le> 2 ^ nat ?k" by simp
  then have "(of_int ?m :: rat) \<le> of_int (2 ^ nat ?k)" by (simp only: of_int_le_iff)
  with le_of_int_ceiling [of "1 / x"] have "1 / x \<le> of_int (2 ^ nat ?k)" by (rule order_trans)
  then have "1 / x \<le> 2 ^ nat ?k" by simp
  then have "1 \<le> 2 ^ nat ?k * x" using assms by (simp add: pos_divide_le_eq)
  then have "1 / 2 ^ nat ?k \<le> x" by (simp add: pos_divide_le_eq mult.commute)
  moreover have "0 \<le> ?k" by (rule bitlen_nonneg)
  ultimately show ?thesis using False by (auto simp: binade_def pow2_def)
qed

lemma binade_upper: assumes "0 < x" shows "x < pow2 (binade x + 1)"
proof (cases "1 \<le> x")
  case True
  then have f: "0 < \<lfloor>x\<rfloor>" by simp
  then have b1: "1 \<le> bitlen \<lfloor>x\<rfloor>" using bitlen_eq_zero_iff [of "\<lfloor>x\<rfloor>"] bitlen_nonneg [of "\<lfloor>x\<rfloor>"] by linarith
  have "\<lfloor>x\<rfloor> < 2 ^ nat (bitlen \<lfloor>x\<rfloor>)" using bitlen_bounds [OF f] by simp
  then have "\<lfloor>x\<rfloor> + 1 \<le> 2 ^ nat (bitlen \<lfloor>x\<rfloor>)" by simp
  then have "(of_int (\<lfloor>x\<rfloor> + 1) :: rat) \<le> of_int (2 ^ nat (bitlen \<lfloor>x\<rfloor>))" by (simp only: of_int_le_iff)
  moreover have "x < of_int (\<lfloor>x\<rfloor> + 1)" using floor_correct [of x] by simp
  ultimately have "x < 2 ^ nat (bitlen \<lfloor>x\<rfloor>)" by simp
  then show ?thesis using True b1 by (simp add: binade_def pow2_def)
next
  case False
  let ?m = "\<lceil>1 / x\<rceil>"
  let ?k = "bitlen (?m - 1)"
  from False assms have y: "1 < 1 / x" by simp
  then have m2: "2 \<le> ?m" by (simp add: le_ceiling_iff)
  then have pos: "0 < ?m - 1" by simp
  then have k1: "1 \<le> ?k" using bitlen_eq_zero_iff [of "?m - 1"] bitlen_nonneg [of "?m - 1"] by linarith
  have "2 ^ nat (?k - 1) \<le> ?m - 1" using bitlen_bounds [OF pos] by simp
  then have "(of_int (2 ^ nat (?k - 1)) :: rat) \<le> of_int (?m - 1)" by (simp only: of_int_le_iff)
  moreover have "of_int (?m - 1) < 1 / x" using ceiling_correct [of "1 / x"] by simp
  ultimately have "2 ^ nat (?k - 1) < 1 / x" by simp
  then have "x * 2 ^ nat (?k - 1) < 1" using assms by (simp add: pos_less_divide_eq mult.commute)
  then have lt: "x < 1 / 2 ^ nat (?k - 1)" by (simp add: pos_less_divide_eq)
  show ?thesis
  proof (cases "?k = 1")
    case True
    then show ?thesis using False lt by (simp add: binade_def pow2_def)
  next
    case neq: False
    with k1 have "\<not> 0 \<le> - ?k + 1" by simp
    moreover have "nat (- (- ?k + 1)) = nat (?k - 1)" by simp
    ultimately show ?thesis using False lt by (simp add: binade_def pow2_def)
  qed
qed

lemma roundHalfEven_ge: "of_int m \<le> z \<Longrightarrow> m \<le> roundHalfEven z"
proof -
  assume "of_int m \<le> z"
  then have "m \<le> \<lfloor>z\<rfloor>" by (simp add: le_floor_iff)
  then show ?thesis by (simp add: roundHalfEven_def Let_def)
qed

lemma roundHalfEven_le: "z \<le> of_int m \<Longrightarrow> roundHalfEven z \<le> m"
proof (cases "z = of_int \<lfloor>z\<rfloor>")
  case True
  assume "z \<le> of_int m"
  then have "\<lfloor>z\<rfloor> \<le> m" using True by (metis of_int_le_iff)
  moreover have "z - of_int \<lfloor>z\<rfloor> = 0" using True by simp
  ultimately show ?thesis by (simp add: roundHalfEven_def Let_def)
next
  case False
  assume zm: "z \<le> of_int m"
  have "of_int \<lfloor>z\<rfloor> \<le> z" by (rule of_int_floor_le)
  with False have "of_int \<lfloor>z\<rfloor> < z" by (metis less_le)
  then have "of_int \<lfloor>z\<rfloor> < (of_int m :: rat)" using zm by simp
  then have "\<lfloor>z\<rfloor> < m" by (simp only: of_int_less_iff)
  then show ?thesis by (simp add: roundHalfEven_def Let_def)
qed


lemma roundHalfEven_of_int: "roundHalfEven (of_int m) = m"
  using roundHalfEven_ge [of m "of_int m"] roundHalfEven_le [of "of_int m" m] by simp

lemma pow2_52_shift: "pow2 e = pow2 52 * pow2 (e - 52)"
  using pow2_add [of 52 "e - 52"] by simp

lemma pow2_low: "e \<le> 52 \<Longrightarrow> pow2 (e - 52) = 1 / 2 ^ nat (52 - e)"
proof (cases "e = 52")
  case True
  then show ?thesis by (simp add: pow2_def)
next
  case False
  assume "e \<le> 52"
  with False have "\<not> 0 \<le> e - 52" by simp
  moreover have "nat (- (e - 52)) = nat (52 - e)" by simp
  ultimately show ?thesis by (simp add: pow2_def)
qed

lemma scaled_int:
  "e \<le> 52 \<Longrightarrow> of_int n / pow2 (e - 52) = of_int (n * 2 ^ nat (52 - e))"
  by (simp add: pow2_low)

lemma scaled_back:
  "e \<le> 52 \<Longrightarrow> of_int (n * 2 ^ nat (52 - e)) * pow2 (e - 52) = of_int n"
  by (simp add: pow2_low)

lemma roundMagnitude_nonneg: "0 \<le> x \<Longrightarrow> 0 \<le> roundMagnitude x"
proof -
  assume x: "0 \<le> x"
  have "\<And>q. 0 < q \<Longrightarrow> 0 \<le> roundHalfEven (x / q)"
    using x by (intro roundHalfEven_ge) simp
  then show ?thesis
    using pow2_pos by (simp add: roundMagnitude_def Let_def less_imp_le)
qed

lemma roundMagnitude_ge:
  assumes x: "0 < x" and n: "n \<le> 2 ^ 53" and nx: "of_int n \<le> x"
  shows "of_int n \<le> roundMagnitude x"
proof -
  define e where "e = max (- 1022) (binade x)"
  define q where "q = pow2 (e - 52)"
  have q: "0 < q" by (simp add: q_def pow2_pos)
  have rm: "roundMagnitude x = of_int (roundHalfEven (x / q)) * q"
    using x by (simp add: roundMagnitude_def Let_def e_def q_def)
  show ?thesis
  proof (cases "e \<le> 52")
    case True
    have "of_int (n * 2 ^ nat (52 - e)) = of_int n / q"
      using scaled_int [OF True, of n] by (simp add: q_def)
    also have "\<dots> \<le> x / q" using nx q by (simp add: divide_right_mono)
    finally have "n * 2 ^ nat (52 - e) \<le> roundHalfEven (x / q)"
      by (rule roundHalfEven_ge)
    then have "(of_int (n * 2 ^ nat (52 - e)) :: rat) \<le> of_int (roundHalfEven (x / q))"
      by (simp only: of_int_le_iff)
    then have "of_int (n * 2 ^ nat (52 - e)) * q \<le> of_int (roundHalfEven (x / q)) * q"
      using q by (simp only: mult_le_cancel_right_pos)
    moreover have "of_int (n * 2 ^ nat (52 - e)) * q = of_int n"
      unfolding q_def by (rule scaled_back [OF True])
    ultimately have "of_int n \<le> of_int (roundHalfEven (x / q)) * q" by (simp only:)
    then show ?thesis by (simp only: rm)
  next
    case False
    then have e53: "53 \<le> e" by simp
    then have eb: "e = binade x" by (simp add: e_def)
    have "pow2 e \<le> x" using binade_lower [OF x] by (simp add: eb)
    then have "pow2 52 * q \<le> x" using pow2_52_shift [of e] by (simp add: q_def)
    then have "pow2 52 \<le> x / q" using q by (simp add: pos_le_divide_eq)
    then have "of_int (2 ^ 52) \<le> x / q" by (simp add: pow2_def)
    then have "2 ^ 52 \<le> roundHalfEven (x / q)" by (rule roundHalfEven_ge)
    then have "(of_int (2 ^ 52) :: rat) \<le> of_int (roundHalfEven (x / q))"
      by (simp only: of_int_le_iff)
    then have "of_int (2 ^ 52) * q \<le> of_int (roundHalfEven (x / q)) * q"
      using q by (simp only: mult_le_cancel_right_pos)
    moreover have "of_int (2 ^ 52) * q = pow2 e"
      using pow2_52_shift [of e] by (simp add: q_def pow2_def)
    moreover have "pow2 53 \<le> pow2 e" using e53 by (rule pow2_mono)
    moreover have "(of_int n :: rat) \<le> pow2 53"
    proof -
      have "(of_int n :: rat) \<le> of_int (2 ^ 53)" using n by (simp only: of_int_le_iff)
      then show ?thesis by (simp add: pow2_def)
    qed
    ultimately show ?thesis by (simp add: rm)
  qed
qed

lemma roundMagnitude_le:
  assumes x: "0 < x" and n: "n \<le> 2 ^ 53" and xn: "x \<le> of_int n"
  shows "roundMagnitude x \<le> of_int n"
proof -
  define e where "e = max (- 1022) (binade x)"
  define q where "q = pow2 (e - 52)"
  have q: "0 < q" by (simp add: q_def pow2_pos)
  have rm: "roundMagnitude x = of_int (roundHalfEven (x / q)) * q"
    using x by (simp add: roundMagnitude_def Let_def e_def q_def)
  have n53: "(of_int n :: rat) \<le> pow2 53"
  proof -
    have "(of_int n :: rat) \<le> of_int (2 ^ 53)" using n by (simp only: of_int_le_iff)
    then show ?thesis by (simp add: pow2_def)
  qed
  show ?thesis
  proof (cases "e \<le> 52")
    case True
    have "x / q \<le> of_int n / q" using xn q by (simp add: divide_right_mono)
    also have "\<dots> = of_int (n * 2 ^ nat (52 - e))"
      using scaled_int [OF True, of n] by (simp add: q_def)
    finally have "roundHalfEven (x / q) \<le> n * 2 ^ nat (52 - e)"
      by (rule roundHalfEven_le)
    then have "(of_int (roundHalfEven (x / q)) :: rat) \<le> of_int (n * 2 ^ nat (52 - e))"
      by (simp only: of_int_le_iff)
    then have "of_int (roundHalfEven (x / q)) * q \<le> of_int (n * 2 ^ nat (52 - e)) * q"
      using q by (simp only: mult_le_cancel_right_pos)
    moreover have "of_int (n * 2 ^ nat (52 - e)) * q = of_int n"
      unfolding q_def by (rule scaled_back [OF True])
    ultimately have "of_int (roundHalfEven (x / q)) * q \<le> of_int n" by (simp only:)
    then show ?thesis by (simp only: rm)
  next
    case False
    then have e53: "53 \<le> e" by simp
    then have eb: "e = binade x" by (simp add: e_def)
    have low: "pow2 e \<le> x" using binade_lower [OF x] by (simp add: eb)
    have "\<not> 53 < e"
    proof
      assume "53 < e"
      then have "pow2 53 < pow2 e" by (rule pow2_strict_mono)
      with low xn n53 show False by simp
    qed
    with e53 have e: "e = 53" by simp
    have "pow2 53 \<le> x" using low by (simp add: e)
    with xn n53 have xeq: "x = pow2 53" and neq: "of_int n = pow2 53" by simp_all
    have "q = 2" by (simp add: q_def e pow2_def)
    then have "x / q = of_int (2 ^ 52)" by (simp add: xeq pow2_def)
    then have "roundHalfEven (x / q) = 2 ^ 52" by (simp only: roundHalfEven_of_int)
    then show ?thesis using \<open>q = 2\<close> by (simp add: rm neq pow2_def)
  qed
qed

lemma fl64_ge:
  assumes "of_int n \<le> x" and "\<bar>n\<bar> \<le> 2 ^ 53"
  shows "of_int n \<le> fl64 x"
proof -
  consider "x < 0" | "x = 0" | "0 < x" by linarith
  then show ?thesis
  proof cases
    case 1
    have "roundMagnitude (- x) \<le> of_int (- n)"
      using 1 assms by (intro roundMagnitude_le) simp_all
    then show ?thesis using 1 by (simp add: fl64_def)
  next
    case 2
    then show ?thesis using assms by (simp add: fl64_def roundMagnitude_def)
  next
    case 3
    show ?thesis
    proof (cases "n \<le> 0")
      case True
      then have "(of_int n :: rat) \<le> 0" by simp
      also have "\<dots> \<le> roundMagnitude x" using 3 by (intro roundMagnitude_nonneg) simp
      finally show ?thesis using 3 by (simp add: fl64_def)
    next
      case False
      have "of_int n \<le> roundMagnitude x"
        using 3 assms by (intro roundMagnitude_ge) simp_all
      then show ?thesis using 3 by (simp add: fl64_def)
    qed
  qed
qed

lemma fl64_le:
  assumes "x \<le> of_int n" and "\<bar>n\<bar> \<le> 2 ^ 53"
  shows "fl64 x \<le> of_int n"
proof -
  consider "x < 0" | "x = 0" | "0 < x" by linarith
  then show ?thesis
  proof cases
    case 1
    show ?thesis
    proof (cases "0 \<le> n")
      case True
      have "0 \<le> roundMagnitude (- x)" using 1 by (intro roundMagnitude_nonneg) simp
      then have "- roundMagnitude (- x) \<le> 0" by simp
      also have "\<dots> \<le> of_int n" using True by simp
      finally show ?thesis using 1 by (simp add: fl64_def)
    next
      case False
      have "of_int (- n) \<le> roundMagnitude (- x)"
        using 1 assms by (intro roundMagnitude_ge) simp_all
      then show ?thesis using 1 by (simp add: fl64_def)
    qed
  next
    case 2
    then show ?thesis using assms by (simp add: fl64_def roundMagnitude_def)
  next
    case 3
    have "roundMagnitude x \<le> of_int n"
      using 3 assms by (intro roundMagnitude_le) simp_all
    then show ?thesis using 3 by (simp add: fl64_def)
  qed
qed

lemma fl64_nonneg: "0 \<le> x \<Longrightarrow> 0 \<le> fl64 x"
  using fl64_ge [of 0 x] by simp

lemma fl64_of_int: "\<bar>n\<bar> \<le> 2 ^ 53 \<Longrightarrow> fl64 (of_int n) = of_int n"
  using fl64_ge [of n "of_int n"] fl64_le [of "of_int n" n] by simp

lemma floor_fl64:
  assumes "\<bar>\<lfloor>x\<rfloor>\<bar> < 2 ^ 53"
  shows "\<lfloor>x\<rfloor> \<le> \<lfloor>fl64 x\<rfloor>" and "\<lfloor>fl64 x\<rfloor> \<le> \<lfloor>x\<rfloor> + 1"
proof -
  have "of_int \<lfloor>x\<rfloor> \<le> fl64 x"
    using assms by (intro fl64_ge) simp_all
  then show "\<lfloor>x\<rfloor> \<le> \<lfloor>fl64 x\<rfloor>" by (simp add: le_floor_iff)
  have "x \<le> of_int (\<lfloor>x\<rfloor> + 1)" using floor_correct [of x] by simp
  then have "fl64 x \<le> of_int (\<lfloor>x\<rfloor> + 1)"
    using assms by (intro fl64_le) simp_all
  then show "\<lfloor>fl64 x\<rfloor> \<le> \<lfloor>x\<rfloor> + 1" by (simp add: floor_le_iff)
qed

lemma ceiling_fl64:
  assumes "\<bar>\<lceil>x\<rceil>\<bar> < 2 ^ 53"
  shows "\<lceil>x\<rceil> - 1 \<le> \<lceil>fl64 x\<rceil>" and "\<lceil>fl64 x\<rceil> \<le> \<lceil>x\<rceil>"
proof -
  have "x \<le> of_int \<lceil>x\<rceil>" by (rule le_of_int_ceiling)
  then have "fl64 x \<le> of_int \<lceil>x\<rceil>"
    using assms by (intro fl64_le) simp_all
  then show "\<lceil>fl64 x\<rceil> \<le> \<lceil>x\<rceil>" by (simp add: ceiling_le_iff)
  have "of_int (\<lceil>x\<rceil> - 1) \<le> x" using ceiling_correct [of x] by simp
  then have "of_int (\<lceil>x\<rceil> - 1) \<le> fl64 x"
    using assms by (intro fl64_ge) simp_all
  then show "\<lceil>x\<rceil> - 1 \<le> \<lceil>fl64 x\<rceil>" by (simp add: le_ceiling_iff)
qed

text \<open>
  Values of the rounded operations at the inputs used below. The two quotients of
  \<open>fdiv_rounds_up\<close> are those of the doubles written \<^verbatim>\<open>51326.399999999994\<close> and
  \<^verbatim>\<open>44.4\<close>, and of \<^verbatim>\<open>500\<close> and \<^verbatim>\<open>44.4\<close>: the exact first quotient is just below 1156 and
  rounds to 1156.
\<close>

lemma fdiv_examples:
  "fdiv 2000 40 = 50" "fdiv 600 40 = 15" "fdiv 0 40 = 0" "fmul 100 44 = 4400"
  "\<lfloor>fdiv 1000 44\<rfloor> = 22" "\<lceil>fdiv 500 44\<rceil> = 12" "\<lfloor>fdiv (- 7) 40\<rfloor> = - 1"
  by code_simp+

lemma fdiv_rounds_up:
  "\<lfloor>fdiv (1763561675371315 / 34359738368) (6248744482976563 / 140737488355328)\<rfloor> = 1156"
  "\<lceil>fdiv 500 (6248744482976563 / 140737488355328)\<rceil> = 12"
  by code_simp+

section \<open>Properties of the virtual window\<close>

lemma item_index_mkItem: "map (item_index \<circ> mkItem options) is = is"
  by (induction "is") (simp_all add: mkItem_def)

lemma startIndex_nonneg: "0 \<le> startIndex options scrollTop"
  by (simp add: startIndex_def)

lemma endIndex_le: "endIndex options scrollTop \<le> int (count options) - 1"
  by (simp add: endIndex_def)

lemma visibleItems_indices:
  "estimateSize options \<noteq> 0 \<Longrightarrow> enabled options \<Longrightarrow> 0 < count options \<Longrightarrow>
   map item_index (visibleItems options scrollTop) =
     [startIndex options scrollTop..endIndex options scrollTop]"
  by (simp add: visibleItems_def item_index_mkItem)

lemma visibleItems_index_nonneg:
  "it \<in> set (visibleItems options scrollTop) \<Longrightarrow> 0 \<le> item_index it"
proof -
  assume mem: "it \<in> set (visibleItems options scrollTop)"
  then obtain i where it: "it = mkItem options i"
    and i: "(estimateSize options = 0 \<and> 0 \<le> i) \<or> startIndex options scrollTop \<le> i"
    by (auto simp: visibleItems_def split: if_splits)
  from i have "0 \<le> i"
    using startIndex_nonneg [of options scrollTop] by auto
  with it show ?thesis by (simp add: mkItem_def)
qed

lemma visibleItems_window:
  "\<exists>a b. 0 \<le> a \<and> b \<le> int (count options) - 1 \<and>
         map item_index (visibleItems options scrollTop) = [a..b]"
proof (cases "\<not> enabled options \<or> count options = 0")
  case True
  then have "map item_index (visibleItems options scrollTop) = [0..- 1]"
    by (simp add: visibleItems_def)
  moreover have "(- 1 :: int) \<le> int (count options) - 1" by simp
  ultimately show ?thesis by (metis order_refl)
next
  case on: False
  show ?thesis
  proof (cases "estimateSize options = 0")
    case True
    show ?thesis
    proof (cases "scrollTop < 0 \<and> 0 < containerHeight options")
      case all: True
      then have "map item_index (visibleItems options scrollTop) = [0..int (count options) - 1]"
        using on True by (simp add: visibleItems_def item_index_mkItem)
      then show ?thesis by (metis order_refl)
    next
      case False
      then have "map item_index (visibleItems options scrollTop) = [0..- 1]"
        using on True by (auto simp: visibleItems_def)
      moreover have "(- 1 :: int) \<le> int (count options) - 1" by simp
      ultimately show ?thesis by (metis order_refl)
    qed
  next
    case False
    then have "map item_index (visibleItems options scrollTop) =
                 [startIndex options scrollTop..endIndex options scrollTop]"
      using on by (simp add: visibleItems_indices)
    then show ?thesis using startIndex_nonneg endIndex_le by metis
  qed
qed

lemma visibleItems_geometry:
  "it \<in> set (visibleItems options scrollTop) \<Longrightarrow>
   item_start it = fmul (of_int (item_index it)) (estimateSize options) \<and>
   item_end it = fmul (of_int (item_index it) + 1) (estimateSize options) \<and>
   item_size it = estimateSize options"
  by (auto simp: visibleItems_def mkItem_def split: if_splits)

lemma visibleItems_nonempty_iff:
  assumes "enabled options" "0 < count options" "0 < estimateSize options"
    and h: "0 \<le> containerHeight options"
  shows "visibleItems options scrollTop \<noteq> [] \<longleftrightarrow>
         \<lfloor>fdiv scrollTop (estimateSize options)\<rfloor> - int (overscanOf options)
           < int (count options)"
proof -
  have "0 \<le> containerHeight options / estimateSize options" using h assms(3) by simp
  then have "0 \<le> fdiv (containerHeight options) (estimateSize options)"
    unfolding fdiv_def by (rule fl64_nonneg)
  then have vc: "0 \<le> visibleCount options" by (simp add: visibleCount_def)
  have "visibleItems options scrollTop \<noteq> [] \<longleftrightarrow>
        startIndex options scrollTop \<le> endIndex options scrollTop"
    using assms by (auto simp: visibleItems_def)
  also have "\<dots> \<longleftrightarrow> startIndex options scrollTop \<le> int (count options) - 1"
    using vc by (auto simp: endIndex_def)
  also have "\<dots> \<longleftrightarrow> \<lfloor>fdiv scrollTop (estimateSize options)\<rfloor> - int (overscanOf options)
      < int (count options)"
    using assms(2) by (auto simp: startIndex_def)
  finally show ?thesis .
qed

lemma fdiv_le_count:
  assumes e: "0 < estimateSize options" and c: "int (count options) \<le> 2 ^ 53"
    and s: "scrollTop \<le> of_int n * estimateSize options" and n: "0 \<le> n" "n \<le> int (count options)"
  shows "\<lfloor>fdiv scrollTop (estimateSize options)\<rfloor> \<le> n"
proof -
  have "scrollTop / estimateSize options \<le> of_int n"
    using s e by (simp add: pos_divide_le_eq)
  then have "fl64 (scrollTop / estimateSize options) \<le> of_int n"
    using n c by (intro fl64_le) simp_all
  then show ?thesis by (simp add: fdiv_def floor_le_iff)
qed


lemma le_ceiling_of_le: "of_int n \<le> z \<Longrightarrow> n \<le> \<lceil>z\<rceil>" for z :: rat
proof -
  assume "of_int n \<le> z"
  also have "z \<le> of_int \<lceil>z\<rceil>" by (rule le_of_int_ceiling)
  finally show ?thesis by (simp only: of_int_le_iff)
qed

lemma window_covers_visible:
  assumes e: "0 < estimateSize options"
    and c: "int (count options) \<le> 2 ^ 53"
    and o: "1 \<le> overscanOf options"
    and s0: "0 \<le> scrollTop"
    and s1: "scrollTop \<le> of_nat (count options) * estimateSize options - containerHeight options"
    and i0: "0 \<le> i" and i1: "i < int (count options)"
    and lo: "of_int i * estimateSize options \<le> scrollTop + containerHeight options"
    and hi: "scrollTop < (of_int i + 1) * estimateSize options"
  shows "startIndex options scrollTop \<le> i \<and> i \<le> endIndex options scrollTop"
proof -
  let ?e = "estimateSize options"
  let ?o = "int (overscanOf options)"
  let ?x = "scrollTop / ?e"
  let ?y = "containerHeight options / ?e"
  have x0: "0 \<le> ?x" using s0 e by simp
  have xi: "?x < of_int (i + 1)" using hi e by (simp add: pos_divide_less_eq)
  have R0: "0 \<le> \<lfloor>?x\<rfloor>" using x0 by simp
  have "\<lfloor>?x\<rfloor> < i + 1" using xi by (simp only: floor_less_iff)
  then have Ri: "\<lfloor>?x\<rfloor> \<le> i" by simp
  have i53: "\<bar>i + 1\<bar> \<le> 2 ^ 53" using i0 i1 c by linarith
  have "?x \<le> of_int (i + 1)" using xi by simp
  then have "fl64 ?x \<le> of_int (i + 1)"
    using i53 by (rule fl64_le)
  then have up: "\<lfloor>fdiv scrollTop ?e\<rfloor> \<le> i + 1"
    by (simp add: fdiv_def floor_le_iff)
  have R53: "\<bar>\<lfloor>?x\<rfloor>\<bar> \<le> 2 ^ 53" using R0 Ri i1 c by linarith
  have "of_int \<lfloor>?x\<rfloor> \<le> ?x" by (rule of_int_floor_le)
  then have "of_int \<lfloor>?x\<rfloor> \<le> fl64 ?x"
    using R53 by (rule fl64_ge)
  then have low: "\<lfloor>?x\<rfloor> \<le> \<lfloor>fdiv scrollTop ?e\<rfloor>"
    by (simp add: fdiv_def le_floor_iff)
  have st: "startIndex options scrollTop \<le> i"
    using up o i0 by (simp add: startIndex_def)
  have st_low: "\<lfloor>?x\<rfloor> - ?o \<le> startIndex options scrollTop"
    using low by (simp add: startIndex_def)
  have xy: "of_int i \<le> ?x + ?y"
    using lo e by (simp add: pos_le_divide_eq flip: add_divide_distrib)
  have "of_int i - ?x \<le> ?y" using xy by simp
  moreover have "of_int i - of_int (i + 1) < of_int i - ?x" using xi by simp
  ultimately have y1: "- 1 < ?y" by simp
  then have V0: "0 \<le> \<lceil>?y\<rceil>" by (simp add: le_ceiling_iff)
  have "containerHeight options \<le> of_nat (count options) * ?e" using s0 s1 by simp
  then have "?y \<le> of_int (int (count options))" using e by (simp add: pos_divide_le_eq)
  then have Vc: "\<lceil>?y\<rceil> \<le> int (count options)" by (simp only: ceiling_le_iff)
  have "(1::int) \<le> 2 ^ 53" by simp
  then have V53: "\<bar>\<lceil>?y\<rceil> - 1\<bar> \<le> 2 ^ 53" using V0 Vc c by linarith
  have "of_int (\<lceil>?y\<rceil> - 1) \<le> ?y" using ceiling_correct [of ?y] by simp
  then have "of_int (\<lceil>?y\<rceil> - 1) \<le> fl64 ?y"
    using V53 by (rule fl64_ge)
  then have "\<lceil>?y\<rceil> - 1 \<le> \<lceil>fl64 ?y\<rceil>" by (rule le_ceiling_of_le)
  then have vc: "\<lceil>?y\<rceil> - 1 \<le> visibleCount options" by (simp add: visibleCount_def fdiv_def)
  have "?x + ?y < (of_int \<lfloor>?x\<rfloor> + 1) + of_int \<lceil>?y\<rceil>"
  proof (intro add_less_le_mono)
    show "?x < of_int \<lfloor>?x\<rfloor> + 1" using floor_correct [of ?x] by simp
    show "?y \<le> of_int \<lceil>?y\<rceil>" by (rule le_of_int_ceiling)
  qed
  with xy have "(of_int i :: rat) < of_int (\<lfloor>?x\<rfloor> + 1 + \<lceil>?y\<rceil>)" by simp
  then have "i < \<lfloor>?x\<rfloor> + 1 + \<lceil>?y\<rceil>" by (simp only: of_int_less_iff)
  then have "i \<le> startIndex options scrollTop + visibleCount options + ?o * 2"
    using st_low vc o by simp
  then have "i \<le> endIndex options scrollTop" using i1 by (simp add: endIndex_def)
  with st show ?thesis by simp
qed

subsection \<open>The window that is computed\<close>

text \<open>
  C1 (as amended). For every \<open>count > 0\<close> and \<open>estimateSize > 0\<close>, with the hook enabled, the
  indices of the returned rows are exactly the integers from
  \<open>startIndex = max(0, floor(scrollTop / estimateSize) - overscan)\<close> to
  \<open>endIndex = min(count - 1, startIndex + ceil(containerHeight / estimateSize) + 2 * overscan)\<close>.
  The end is measured from the clamped start, with twice the overscan added. Whenever
  \<open>floor(scrollTop / estimateSize) \<ge> overscan\<close>, so that the start is not clamped at 0, this
  is the window of the design document, from \<open>max(0, rawStart - overscan)\<close> to
  \<open>min(totalCount - 1, rawStart + visibleCount + overscan)\<close>. The quotients are the
  program's, rounded as doubles.
\<close>

theorem C1_window_amended:
  assumes "0 < count options" and "0 < estimateSize options" and "enabled options"
  shows "map item_index (virtualRows (useVirtualScroll options scrollTop)) =
           [max 0 (\<lfloor>fdiv scrollTop (estimateSize options)\<rfloor> - int (overscanOf options)) ..
            min (int (count options) - 1)
                (max 0 (\<lfloor>fdiv scrollTop (estimateSize options)\<rfloor> - int (overscanOf options))
                  + \<lceil>fdiv (containerHeight options) (estimateSize options)\<rceil>
                  + int (overscanOf options) * 2)] \<and>
         (int (overscanOf options) \<le> \<lfloor>fdiv scrollTop (estimateSize options)\<rfloor> \<longrightarrow>
            map item_index (virtualRows (useVirtualScroll options scrollTop)) =
              [fst (spec_computeWindow (count options) (estimateSize options)
                      (containerHeight options) scrollTop (overscanOf options)) ..
               snd (spec_computeWindow (count options) (estimateSize options)
                      (containerHeight options) scrollTop (overscanOf options))])"
  using assms
  by (simp add: useVirtualScroll_def visibleItems_indices startIndex_def endIndex_def
      visibleCount_def spec_computeWindow_def Let_def ac_simps)

text \<open>
  The example of the design document: 1000 rows of 40 pixels, a viewport of 600 pixels
  scrolled to 2000, overscan 5, gives the rows 45 to 70.
\<close>

theorem C1_window_witness:
  "map item_index (virtualRows (useVirtualScroll
      \<lparr>count = 1000, estimateSize = 40, overscan = Some 5, containerHeight = 600,
       enabled = True\<rparr> 2000)) = [45..70] \<and>
   spec_computeWindow 1000 40 600 2000 5 = (45, 70)"
  using C1_window_amended [of "\<lparr>count = 1000, estimateSize = 40, overscan = Some 5,
      containerHeight = 600, enabled = True\<rparr>" 2000]
  by (simp add: overscanOf_def spec_computeWindow_def fdiv_examples)

text \<open>
  Near the top the two windows differ. At scroll position 0, with the other values as
  above, the design document's formula ends the window at row 20; the hook returns the rows
  0 to 25.
\<close>

theorem C1_window_counterexample:
  "map item_index (virtualRows (useVirtualScroll
      \<lparr>count = 1000, estimateSize = 40, overscan = Some 5, containerHeight = 600,
       enabled = True\<rparr> 0)) = [0..25] \<and>
   spec_computeWindow 1000 40 600 0 5 = (0, 20) \<and>
   endIndex \<lparr>count = 1000, estimateSize = 40, overscan = Some 5, containerHeight = 600,
       enabled = True\<rparr> 0 \<noteq> snd (spec_computeWindow 1000 40 600 0 5)"
  by (simp add: useVirtualScroll_def visibleItems_def item_index_mkItem startIndex_def
      endIndex_def visibleCount_def overscanOf_def spec_computeWindow_def fdiv_examples)

subsection \<open>Visible rows are inside the window\<close>

text \<open>
  C2 (as amended). For every \<open>count > 0\<close> up to \<open>2^53\<close>, \<open>estimateSize > 0\<close>, overscan of at
  least 1 and scroll position in \<open>[0, count * estimateSize - containerHeight]\<close>, every row
  index \<open>i\<close> (a row of the list, \<open>0 \<le> i < count\<close>) whose pixel span
  \<open>[i * estimateSize, (i + 1) * estimateSize)\<close> meets the visible range
  \<open>[scrollTop, scrollTop + containerHeight]\<close> lies inside the computed window:
  \<open>startIndex \<le> i \<le> endIndex\<close>, and \<open>i\<close> is the index of a returned row. The spans and the
  visible range are the exact ones; the window is the one the program computes from its
  rounded quotients, which can be off by one row at either end, and one row of overscan
  covers that.
\<close>

theorem C2_visible_rows_amended:
  assumes "enabled options" and "0 < count options" and "int (count options) \<le> 2 ^ 53"
    and "0 < estimateSize options" and "1 \<le> overscanOf options"
    and "0 \<le> scrollTop"
    and "scrollTop \<le> of_nat (count options) * estimateSize options - containerHeight options"
    and "0 \<le> i" and "i < int (count options)"
    and "of_int i * estimateSize options \<le> scrollTop + containerHeight options"
    and "scrollTop < (of_int i + 1) * estimateSize options"
  shows "startIndex options scrollTop \<le> i \<and> i \<le> endIndex options scrollTop \<and>
         i \<in> set (map item_index (virtualRows (useVirtualScroll options scrollTop)))"
proof -
  have w: "startIndex options scrollTop \<le> i \<and> i \<le> endIndex options scrollTop"
    using assms by (intro window_covers_visible) simp_all
  have "map item_index (virtualRows (useVirtualScroll options scrollTop)) =
          [startIndex options scrollTop..endIndex options scrollTop]"
    using assms by (simp add: useVirtualScroll_def visibleItems_indices)
  with w show ?thesis by simp
qed

text \<open>
  100000 rows of height \<^verbatim>\<open>44.4\<close> in a container of 500 pixels scrolled to
  \<^verbatim>\<open>51326.399999999994\<close>, with an overscan of 1: row 1155, whose span contains the scroll
  position, is the first row of the window.
\<close>

theorem C2_visible_rows_witness:
  "startIndex \<lparr>count = 100000, estimateSize = 6248744482976563 / 140737488355328,
       overscan = Some 1, containerHeight = 500, enabled = True\<rparr>
     (1763561675371315 / 34359738368) = 1155 \<and>
   1155 \<in> set (map item_index (virtualRows (useVirtualScroll
      \<lparr>count = 100000, estimateSize = 6248744482976563 / 140737488355328,
       overscan = Some 1, containerHeight = 500, enabled = True\<rparr>
      (1763561675371315 / 34359738368))))"
  using C2_visible_rows_amended [of "\<lparr>count = 100000,
      estimateSize = 6248744482976563 / 140737488355328, overscan = Some 1,
      containerHeight = 500, enabled = True\<rparr>" "1763561675371315 / 34359738368" 1155]
  by (simp add: overscanOf_def startIndex_def fdiv_rounds_up)

text \<open>
  With no overscan the same row is left out. The scroll position is inside the span of row
  1155, but the quotient rounds to 1156, and the rows returned are 1156 to 1168.
\<close>

theorem C2_visible_rows_counterexample:
  "(0::rat) \<le> 1763561675371315 / 34359738368 \<and>
   (1763561675371315 / 34359738368 :: rat)
     \<le> of_nat 100000 * (6248744482976563 / 140737488355328) - 500 \<and>
   (of_int 1155 * (6248744482976563 / 140737488355328) :: rat)
     \<le> 1763561675371315 / 34359738368 + 500 \<and>
   (1763561675371315 / 34359738368 :: rat)
     < (of_int 1155 + 1) * (6248744482976563 / 140737488355328) \<and>
   startIndex \<lparr>count = 100000, estimateSize = 6248744482976563 / 140737488355328,
       overscan = Some 0, containerHeight = 500, enabled = True\<rparr>
     (1763561675371315 / 34359738368) = 1156 \<and>
   map item_index (virtualRows (useVirtualScroll
      \<lparr>count = 100000, estimateSize = 6248744482976563 / 140737488355328,
       overscan = Some 0, containerHeight = 500, enabled = True\<rparr>
      (1763561675371315 / 34359738368))) = [1156..1168] \<and>
   1155 \<notin> set (map item_index (virtualRows (useVirtualScroll
      \<lparr>count = 100000, estimateSize = 6248744482976563 / 140737488355328,
       overscan = Some 0, containerHeight = 500, enabled = True\<rparr>
      (1763561675371315 / 34359738368))))"
  by (simp add: useVirtualScroll_def visibleItems_def item_index_mkItem startIndex_def
      endIndex_def visibleCount_def overscanOf_def fdiv_rounds_up mkItem_def)

subsection \<open>Empty list, no negative index\<close>

text \<open>
  C9. With a total item count of 0 the hook returns no virtual rows at all, and for every
  input (any count, row height, scroll position, container height and overscan, enabled or
  not) no returned item has a negative index.
\<close>

theorem C9_empty_and_nonnegative:
  "(count options = 0 \<longrightarrow> virtualRows (useVirtualScroll options scrollTop) = []) \<and>
   (\<forall>it \<in> set (virtualRows (useVirtualScroll options scrollTop)). 0 \<le> item_index it)"
  by (simp add: useVirtualScroll_def visibleItems_index_nonneg) (simp add: visibleItems_def)

text \<open>No rows for a count of 0; for three rows and a negative scroll position, the rows 0 to 2.\<close>

theorem C9_empty_and_nonnegative_witness:
  "virtualRows (useVirtualScroll
      \<lparr>count = 0, estimateSize = 40, overscan = None, containerHeight = 600,
       enabled = True\<rparr> 120) = [] \<and>
   list_all (\<lambda>it. 0 \<le> item_index it) (virtualRows (useVirtualScroll
      \<lparr>count = 3, estimateSize = 40, overscan = None, containerHeight = 600,
       enabled = True\<rparr> (-7))) \<and>
   map item_index (virtualRows (useVirtualScroll
      \<lparr>count = 3, estimateSize = 40, overscan = None, containerHeight = 600,
       enabled = True\<rparr> (-7))) = [0..2]"
  using C9_empty_and_nonnegative [of "\<lparr>count = 0, estimateSize = 40, overscan = None,
      containerHeight = 600, enabled = True\<rparr>" 120]
    C9_empty_and_nonnegative [of "\<lparr>count = 3, estimateSize = 40, overscan = None,
      containerHeight = 600, enabled = True\<rparr>" "-7"]
  by (simp add: useVirtualScroll_def visibleItems_def item_index_mkItem startIndex_def
      endIndex_def visibleCount_def overscanOf_def fdiv_examples list_all_iff)

subsection \<open>The materialised rows\<close>

text \<open>
  C10 (as amended). Whenever virtual scrolling is enabled and \<open>count > 0\<close>, the virtual
  rows have consecutive ascending indices \<open>a..b\<close>, all within \<open>[0, count - 1]\<close>; each item
  has \<open>start = index * estimateSize\<close>, \<open>end = (index + 1) * estimateSize\<close> and
  \<open>size = estimateSize\<close>; and \<open>totalHeight = count * estimateSize\<close>, the products being the
  program's. The list may be empty. For \<open>estimateSize > 0\<close> and a container height that is
  not negative it is non-empty exactly when \<open>floor(scrollTop / estimateSize) - overscan < count\<close>,
  the quotient being the program's; for a count up to \<open>2^53\<close> this is so whenever
  \<open>scrollTop \<le> (count - 1) * estimateSize\<close>, and, with an overscan of at least 1, whenever
  \<open>scrollTop \<le> count * estimateSize\<close>.
\<close>

theorem C10_rows_amended:
  assumes "enabled options" and "0 < count options"
  shows "(\<exists>a b. 0 \<le> a \<and> b \<le> int (count options) - 1 \<and>
            map item_index (virtualRows (useVirtualScroll options scrollTop)) = [a..b]) \<and>
         (\<forall>it \<in> set (virtualRows (useVirtualScroll options scrollTop)).
            item_start it = fmul (of_int (item_index it)) (estimateSize options) \<and>
            item_end it = fmul (of_int (item_index it) + 1) (estimateSize options) \<and>
            item_size it = estimateSize options) \<and>
         totalHeight (useVirtualScroll options scrollTop) =
           fmul (of_nat (count options)) (estimateSize options) \<and>
         (0 < estimateSize options \<and> 0 \<le> containerHeight options \<longrightarrow>
            (virtualRows (useVirtualScroll options scrollTop) \<noteq> [] \<longleftrightarrow>
             \<lfloor>fdiv scrollTop (estimateSize options)\<rfloor> - int (overscanOf options)
               < int (count options))) \<and>
         (0 < estimateSize options \<and> 0 \<le> containerHeight options \<and>
          int (count options) \<le> 2 ^ 53 \<and>
          (scrollTop \<le> (of_nat (count options) - 1) * estimateSize options \<or>
           1 \<le> overscanOf options \<and>
           scrollTop \<le> of_nat (count options) * estimateSize options) \<longrightarrow>
            virtualRows (useVirtualScroll options scrollTop) \<noteq> [])"
proof -
  have rows: "virtualRows (useVirtualScroll options scrollTop) = visibleItems options scrollTop"
    by (simp add: useVirtualScroll_def)
  have 1: "\<exists>a b. 0 \<le> a \<and> b \<le> int (count options) - 1 \<and>
            map item_index (visibleItems options scrollTop) = [a..b]"
    by (rule visibleItems_window)
  have 2: "\<forall>it \<in> set (visibleItems options scrollTop).
            item_start it = fmul (of_int (item_index it)) (estimateSize options) \<and>
            item_end it = fmul (of_int (item_index it) + 1) (estimateSize options) \<and>
            item_size it = estimateSize options"
    using visibleItems_geometry by blast
  have 3: "totalHeight (useVirtualScroll options scrollTop) =
           fmul (of_nat (count options)) (estimateSize options)"
    by (simp add: useVirtualScroll_def)
  have 4: "0 < estimateSize options \<and> 0 \<le> containerHeight options \<longrightarrow>
            (visibleItems options scrollTop \<noteq> [] \<longleftrightarrow>
             \<lfloor>fdiv scrollTop (estimateSize options)\<rfloor> - int (overscanOf options)
               < int (count options))"
    using visibleItems_nonempty_iff [OF assms] by blast
  have 5: "0 < estimateSize options \<and> 0 \<le> containerHeight options \<and>
          int (count options) \<le> 2 ^ 53 \<and>
          (scrollTop \<le> (of_nat (count options) - 1) * estimateSize options \<or>
           1 \<le> overscanOf options \<and>
           scrollTop \<le> of_nat (count options) * estimateSize options) \<longrightarrow>
            visibleItems options scrollTop \<noteq> []"
  proof (intro impI, elim conjE)
    assume e: "0 < estimateSize options" and h: "0 \<le> containerHeight options"
      and c: "int (count options) \<le> 2 ^ 53"
      and s: "scrollTop \<le> (of_nat (count options) - 1) * estimateSize options \<or>
           1 \<le> overscanOf options \<and>
           scrollTop \<le> of_nat (count options) * estimateSize options"
    from s have "\<lfloor>fdiv scrollTop (estimateSize options)\<rfloor> - int (overscanOf options)
        < int (count options)"
    proof
      assume "scrollTop \<le> (of_nat (count options) - 1) * estimateSize options"
      then have "scrollTop \<le> of_int (int (count options) - 1) * estimateSize options"
        by simp
      then have "\<lfloor>fdiv scrollTop (estimateSize options)\<rfloor> \<le> int (count options) - 1"
        using e c assms(2) by (intro fdiv_le_count) simp_all
      then show ?thesis by simp
    next
      assume a: "1 \<le> overscanOf options \<and>
           scrollTop \<le> of_nat (count options) * estimateSize options"
      then have "scrollTop \<le> of_int (int (count options)) * estimateSize options"
        by simp
      then have "\<lfloor>fdiv scrollTop (estimateSize options)\<rfloor> \<le> int (count options)"
        using e c by (intro fdiv_le_count) simp_all
      then show ?thesis using a by simp
    qed
    then show "visibleItems options scrollTop \<noteq> []"
      using visibleItems_nonempty_iff [OF assms e h] by simp
  qed
  show ?thesis
    unfolding rows using 1 2 3 4 5 by blast
qed

text \<open>
  The table's defaults: 100 rows of 44 pixels in a container of 500 pixels scrolled to 1000,
  overscan 10.
\<close>

theorem C10_rows_witness:
  "map item_index (virtualRows (useVirtualScroll
      \<lparr>count = 100, estimateSize = 44, overscan = None, containerHeight = 500,
       enabled = True\<rparr> 1000)) = [12..44] \<and>
   totalHeight (useVirtualScroll
      \<lparr>count = 100, estimateSize = 44, overscan = None, containerHeight = 500,
       enabled = True\<rparr> 1000) = 4400 \<and>
   virtualRows (useVirtualScroll
      \<lparr>count = 100, estimateSize = 44, overscan = None, containerHeight = 500,
       enabled = True\<rparr> 1000) \<noteq> []"
  using C10_rows_amended [of "\<lparr>count = 100, estimateSize = 44, overscan = None,
      containerHeight = 500, enabled = True\<rparr>" 1000]
  by (simp add: useVirtualScroll_def visibleItems_def item_index_mkItem startIndex_def
      endIndex_def visibleCount_def overscanOf_def fdiv_examples mkItem_def)

text \<open>
  The list can be empty although the hook is enabled and \<open>count > 0\<close>: the scroll position
  is state of the hook and is not clamped when the count shrinks. With one row left and the
  position still at 2000, nothing is returned.
\<close>

theorem C10_rows_counterexample:
  "enabled \<lparr>count = 1, estimateSize = 40, overscan = Some 10, containerHeight = 600,
       enabled = True\<rparr> \<and>
   0 < count \<lparr>count = 1, estimateSize = 40, overscan = Some 10, containerHeight = 600,
       enabled = True\<rparr> \<and>
   virtualRows (useVirtualScroll
      \<lparr>count = 1, estimateSize = 40, overscan = Some 10, containerHeight = 600,
       enabled = True\<rparr> 2000) = []"
  by (simp add: useVirtualScroll_def visibleItems_def startIndex_def endIndex_def
      visibleCount_def overscanOf_def fdiv_examples)

text \<open>
  A scroll position below \<open>count * estimateSize\<close> is not enough without overscan: with 1156
  rows of height \<^verbatim>\<open>44.4\<close>, scrolled to \<^verbatim>\<open>51326.399999999994\<close>, the rounded quotient is 1156
  and no row is returned.
\<close>

lemma rounding_leaves_no_row:
  "(1763561675371315 / 34359738368 :: rat)
     < of_nat 1156 * (6248744482976563 / 140737488355328) \<and>
   virtualRows (useVirtualScroll
      \<lparr>count = 1156, estimateSize = 6248744482976563 / 140737488355328,
       overscan = Some 0, containerHeight = 0, enabled = True\<rparr>
      (1763561675371315 / 34359738368)) = []"
  by (simp add: useVirtualScroll_def visibleItems_def startIndex_def endIndex_def
      visibleCount_def overscanOf_def fdiv_rounds_up)

section \<open>Properties of the CSV export\<close>

lemma scan_FieldStart_plain:
  "\<not> special c \<Longrightarrow>
   spec_scan FieldStart rows flds cur (c # cs) = spec_scan Unquoted rows flds (cur @ [c]) cs"
  by (simp add: special_def)

lemma scan_Unquoted_plain:
  "\<not> special c \<Longrightarrow>
   spec_scan Unquoted rows flds cur (c # cs) = spec_scan Unquoted rows flds (cur @ [c]) cs"
  by (simp add: special_def)

lemma scan_Unquoted_run:
  "\<forall>c \<in> set v. \<not> special c \<Longrightarrow>
   spec_scan Unquoted rows flds cur (v @ rest) = spec_scan Unquoted rows flds (cur @ v) rest"
proof (induction v arbitrary: cur)
  case Nil
  then show ?case by simp
next
  case (Cons c v)
  from Cons.prems have c: "\<not> special c" and v: "\<forall>c \<in> set v. \<not> special c"
    by simp_all
  have "spec_scan Unquoted rows flds cur ((c # v) @ rest)
        = spec_scan Unquoted rows flds (cur @ [c]) (v @ rest)"
    using scan_Unquoted_plain [OF c] by simp
  also have "\<dots> = spec_scan Unquoted rows flds ((cur @ [c]) @ v) rest"
    by (rule Cons.IH [OF v])
  finally show ?case by simp
qed

lemma scan_Quoted_run:
  "spec_scan Quoted rows flds cur (replaceQuotes v @ dquote # rest)
   = spec_scan QuoteSeen rows flds (cur @ v) rest"
proof (induction v arbitrary: cur)
  case Nil
  then show ?case by (simp add: replaceQuotes_def)
next
  case (Cons c v)
  have rq: "replaceQuotes (c # v)
            = (if c = dquote then [dquote, dquote] else [c]) @ replaceQuotes v"
    by (simp add: replaceQuotes_def)
  have "spec_scan Quoted rows flds cur (replaceQuotes (c # v) @ dquote # rest)
        = spec_scan Quoted rows flds (cur @ [c]) (replaceQuotes v @ dquote # rest)"
    by (simp add: rq)
  also have "\<dots> = spec_scan QuoteSeen rows flds ((cur @ [c]) @ v) rest"
    by (rule Cons.IH)
  finally show ?case by simp
qed

lemma escapeCSV_special:
  "\<exists>c \<in> set v. special c \<Longrightarrow> escapeCSV (Some v) = dquote # replaceQuotes v @ [dquote]"
  by (auto simp: escapeCSV_def special_def)

lemma escapeCSV_plain:
  "\<forall>c \<in> set v. \<not> special c \<Longrightarrow> escapeCSV (Some v) = v"
  by (auto simp: escapeCSV_def special_def)

lemma scan_field_body:
  "spec_scan FieldStart rows flds [] (escapeCSV (Some v) @ rest) = spec_scan (fieldEnd v) rows flds v rest"
proof (cases "\<exists>c \<in> set v. special c")
  case True
  have "spec_scan FieldStart rows flds [] (escapeCSV (Some v) @ rest)
        = spec_scan Quoted rows flds [] (replaceQuotes v @ dquote # rest)"
    by (simp add: escapeCSV_special [OF True])
  also have "\<dots> = spec_scan QuoteSeen rows flds ([] @ v) rest"
    by (rule scan_Quoted_run)
  finally show ?thesis using True by (simp add: fieldEnd_def)
next
  case False
  then have plain: "\<forall>c \<in> set v. \<not> special c" by simp
  show ?thesis
  proof (cases v)
    case Nil
    then show ?thesis by (simp add: fieldEnd_def escapeCSV_plain)
  next
    case (Cons c w)
    from plain Cons have c: "\<not> special c" and w: "\<forall>c \<in> set w. \<not> special c"
      by simp_all
    have esc: "escapeCSV (Some v) @ rest = c # (w @ rest)"
      using escapeCSV_plain [OF plain] Cons by simp
    have "spec_scan FieldStart rows flds [] (c # (w @ rest))
          = spec_scan Unquoted rows flds ([] @ [c]) (w @ rest)"
      by (rule scan_FieldStart_plain [OF c])
    then have "spec_scan FieldStart rows flds [] (escapeCSV (Some v) @ rest)
          = spec_scan Unquoted rows flds [c] (w @ rest)"
      by (simp only: esc append_Nil)
    also have "\<dots> = spec_scan Unquoted rows flds ([c] @ w) rest"
      by (rule scan_Unquoted_run [OF w])
    finally show ?thesis using False Cons by (simp add: fieldEnd_def)
  qed
qed

lemma fieldEnd_cases:
  "fieldEnd v = QuoteSeen \<or> (fieldEnd v = FieldStart \<and> v = []) \<or> fieldEnd v = Unquoted"
  by (simp add: fieldEnd_def)

lemma scan_fieldEnd_eof:
  "v \<noteq> [] \<or> flds \<noteq> [] \<Longrightarrow>
   spec_scan (fieldEnd v) rows flds v [] = Some (rows @ [flds @ [v]])"
  using fieldEnd_cases [of v] by auto

lemma scan_fieldEnd_comma:
  "spec_scan (fieldEnd v) rows flds v (comma # rest) = spec_scan FieldStart rows (flds @ [v]) [] rest"
  using fieldEnd_cases [of v] by auto

lemma scan_fieldEnd_crlf:
  "spec_scan (fieldEnd v) rows flds v (CR # LF # rest)
   = spec_scan FieldStart (rows @ [flds @ [v]]) [] [] rest"
  using fieldEnd_cases [of v] by auto

lemma csvLine_Cons:
  "csvLine (v # w # ws) = escapeCSV (Some v) @ comma # csvLine (w # ws)"
  by (simp add: csvLine_def)

lemma csvLine_single: "csvLine [v] = escapeCSV (Some v)"
  by (simp add: csvLine_def)

lemma scan_line_eof:
  "vs \<noteq> [] \<Longrightarrow> flds \<noteq> [] \<or> vs \<noteq> [[]] \<Longrightarrow>
   spec_scan FieldStart rows flds [] (csvLine vs) = Some (rows @ [flds @ vs])"
proof (induction vs arbitrary: flds)
  case Nil
  then show ?case by simp
next
  case (Cons v vs)
  show ?case
  proof (cases vs)
    case Nil
    with Cons.prems have ne: "v \<noteq> [] \<or> flds \<noteq> []" by auto
    have "spec_scan FieldStart rows flds [] (escapeCSV (Some v) @ [])
          = spec_scan (fieldEnd v) rows flds v []"
      by (rule scan_field_body)
    also have "\<dots> = Some (rows @ [flds @ [v]])"
      by (rule scan_fieldEnd_eof [OF ne])
    finally show ?thesis using Nil by (simp add: csvLine_single)
  next
    case (Cons w ws)
    have "spec_scan FieldStart rows flds [] (escapeCSV (Some v) @ comma # csvLine vs)
          = spec_scan (fieldEnd v) rows flds v (comma # csvLine vs)"
      by (rule scan_field_body)
    also have "\<dots> = spec_scan FieldStart rows (flds @ [v]) [] (csvLine vs)"
      by (rule scan_fieldEnd_comma)
    also have "\<dots> = Some (rows @ [(flds @ [v]) @ vs])"
      using Cons by (intro Cons.IH) simp_all
    finally show ?thesis using Cons by (simp add: csvLine_Cons)
  qed
qed

lemma scan_line_crlf:
  "vs \<noteq> [] \<Longrightarrow>
   spec_scan FieldStart rows flds [] (csvLine vs @ CR # LF # rest)
     = spec_scan FieldStart (rows @ [flds @ vs]) [] [] rest"
proof (induction vs arbitrary: flds)
  case Nil
  then show ?case by simp
next
  case (Cons v vs)
  show ?case
  proof (cases vs)
    case Nil
    have "spec_scan FieldStart rows flds [] (escapeCSV (Some v) @ CR # LF # rest)
          = spec_scan (fieldEnd v) rows flds v (CR # LF # rest)"
      by (rule scan_field_body)
    also have "\<dots> = spec_scan FieldStart (rows @ [flds @ [v]]) [] [] rest"
      by (rule scan_fieldEnd_crlf)
    finally show ?thesis using Nil by (simp add: csvLine_single)
  next
    case (Cons w ws)
    have "spec_scan FieldStart rows flds []
            (escapeCSV (Some v) @ comma # csvLine vs @ CR # LF # rest)
          = spec_scan (fieldEnd v) rows flds v (comma # csvLine vs @ CR # LF # rest)"
      by (rule scan_field_body)
    also have "\<dots> = spec_scan FieldStart rows (flds @ [v]) [] (csvLine vs @ CR # LF # rest)"
      by (rule scan_fieldEnd_comma)
    also have "\<dots> = spec_scan FieldStart (rows @ [(flds @ [v]) @ vs]) [] [] rest"
      using Cons by (intro Cons.IH) simp
    finally show ?thesis using Cons by (simp add: csvLine_Cons)
  qed
qed

lemma scan_text:
  "ls \<noteq> [] \<Longrightarrow> \<forall>l \<in> set ls. l \<noteq> [] \<Longrightarrow> last ls \<noteq> [[]] \<Longrightarrow>
   spec_scan FieldStart rows [] [] (join [CR, LF] (map csvLine ls)) = Some (rows @ ls)"
proof (induction ls arbitrary: rows)
  case Nil
  then show ?case by simp
next
  case (Cons l ls)
  from Cons.prems have l: "l \<noteq> []" by simp
  show ?case
  proof (cases ls)
    case Nil
    with Cons.prems have "l \<noteq> [[]]" by simp
    then have "spec_scan FieldStart rows [] [] (csvLine l) = Some (rows @ [[] @ l])"
      using l by (intro scan_line_eof) simp_all
    then show ?thesis using Nil by simp
  next
    case (Cons k ks)
    have "spec_scan FieldStart rows [] [] (csvLine l @ CR # LF # join [CR, LF] (map csvLine ls))
          = spec_scan FieldStart (rows @ [[] @ l]) [] [] (join [CR, LF] (map csvLine ls))"
      by (rule scan_line_crlf [OF l])
    also have "\<dots> = Some ((rows @ [[] @ l]) @ ls)"
      using Cons Cons.prems by (intro Cons.IH) simp_all
    finally show ?thesis using Cons by simp
  qed
qed

lemma escapeCSV_cellText: "escapeCSV v = escapeCSV (Some (cellText v))"
  by (cases v) (simp_all add: escapeCSV_def cellText_def)

lemma generateCSV_lines:
  "generateCSV options = join [CR, LF] (map csvLine (grid options))"
  by (simp add: generateCSV_def grid_def csvLine_def comp_def escapeCSV_cellText [symmetric])

lemma parse_generate:
  assumes "columns options \<noteq> []" and "last (grid options) \<noteq> [[]]"
  shows "spec_parseCSV (generateCSV options) = Some (grid options)"
proof -
  have "\<forall>l \<in> set (grid options). l \<noteq> []"
    using assms(1) by (auto simp: grid_def)
  moreover have "grid options \<noteq> []"
    by (simp add: grid_def)
  ultimately have "spec_scan FieldStart [] [] [] (join [CR, LF] (map csvLine (grid options)))
                   = Some ([] @ grid options)"
    using assms(2) by (intro scan_text)
  then show ?thesis by (simp add: spec_parseCSV_def generateCSV_lines)
qed

lemma scan_rows_nonempty:
  "spec_scan m rows flds cur inp = Some res \<Longrightarrow> \<forall>r \<in> set rows. r \<noteq> [] \<Longrightarrow>
   \<forall>r \<in> set res. r \<noteq> []"
proof (induction inp arbitrary: m rows flds cur)
  case Nil
  then show ?case by (auto split: if_splits)
next
  case (Cons c cs)
  show ?case
  proof (cases m)
    case FieldStart
    with Cons.prems show ?thesis by (auto split: if_splits dest: Cons.IH)
  next
    case Unquoted
    with Cons.prems show ?thesis by (auto split: if_splits dest: Cons.IH)
  next
    case Quoted
    with Cons.prems show ?thesis by (auto split: if_splits dest: Cons.IH)
  next
    case QuoteSeen
    with Cons.prems show ?thesis by (auto split: if_splits dest: Cons.IH)
  next
    case SeenCR
    with Cons.prems have "c = LF" and "spec_scan FieldStart (rows @ [flds @ [cur]]) [] [] cs = Some res"
      by (auto split: if_splits)
    moreover have "\<forall>r \<in> set (rows @ [flds @ [cur]]). r \<noteq> []" using Cons.prems(2) by simp
    ultimately show ?thesis using Cons.IH by blast
  qed
qed

lemma scan_text_dropped:
  "\<forall>l \<in> set ls. l \<noteq> [] \<Longrightarrow>
   spec_scan FieldStart rows [] [] (join [CR, LF] (map csvLine (ls @ [[[]]]))) = Some (rows @ ls)"
proof (induction ls arbitrary: rows)
  case Nil
  then show ?case by (simp add: csvLine_def escapeCSV_def)
next
  case (Cons l ls)
  from Cons.prems have l: "l \<noteq> []" by simp
  obtain k ks where tl: "map csvLine (ls @ [[[]]]) = k # ks"
    by (cases "map csvLine (ls @ [[[]]])") simp_all
  have "spec_scan FieldStart rows [] []
          (csvLine l @ CR # LF # join [CR, LF] (map csvLine (ls @ [[[]]])))
        = spec_scan FieldStart (rows @ [[] @ l]) [] [] (join [CR, LF] (map csvLine (ls @ [[[]]])))"
    by (rule scan_line_crlf [OF l])
  also have "\<dots> = Some ((rows @ [[] @ l]) @ ls)"
    using Cons.prems by (intro Cons.IH) simp
  finally show ?case using tl by simp
qed

lemma parse_generate_iff:
  "spec_parseCSV (generateCSV options) = Some (grid options) \<longleftrightarrow>
   columns options \<noteq> [] \<and> last (grid options) \<noteq> [[]]"
proof
  assume ok: "spec_parseCSV (generateCSV options) = Some (grid options)"
  have cols: "columns options \<noteq> []"
  proof
    assume "columns options = []"
    then have "[] \<in> set (grid options)" by (simp add: grid_def)
    moreover have "\<forall>r \<in> set (grid options). r \<noteq> []"
      using scan_rows_nonempty [of FieldStart "[]" "[]" "[]" "generateCSV options" "grid options"] ok
      by (simp add: spec_parseCSV_def)
    ultimately show False by blast
  qed
  have "last (grid options) \<noteq> [[]]"
  proof
    assume l: "last (grid options) = [[]]"
    have ne: "grid options \<noteq> []" by (simp add: grid_def)
    then have g: "grid options = butlast (grid options) @ [[[]]]"
      using l append_butlast_last_id [of "grid options"] by simp
    have "\<forall>r \<in> set (grid options). r \<noteq> []" using cols by (auto simp: grid_def)
    then have "\<forall>r \<in> set (butlast (grid options)). r \<noteq> []"
      by (meson in_set_butlastD)
    then have "spec_scan FieldStart [] [] []
                 (join [CR, LF] (map csvLine (butlast (grid options) @ [[[]]])))
               = Some ([] @ butlast (grid options))"
      by (rule scan_text_dropped)
    then have "spec_parseCSV (generateCSV options) = Some (butlast (grid options))"
      using g by (simp add: spec_parseCSV_def generateCSV_lines)
    with ok have "butlast (grid options) = grid options" by simp
    with g have "grid options = grid options @ [[[]]]" by simp
    then show False by simp
  qed
  with cols show "columns options \<noteq> [] \<and> last (grid options) \<noteq> [[]]" by simp
next
  assume "columns options \<noteq> [] \<and> last (grid options) \<noteq> [[]]"
  then show "spec_parseCSV (generateCSV options) = Some (grid options)"
    by (simp add: parse_generate)
qed

lemma join_terminated:
  "xs \<noteq> [] \<Longrightarrow> join sep xs @ sep = concat (map (\<lambda>x. x @ sep) xs)"
  by (induction sep xs rule: join.induct) simp_all

subsection \<open>Rows and fields of the text\<close>

text \<open>
  C8 (as amended). The text produced by \<open>generateCSV\<close> consists of the header row followed
  by one row per data element in data order, each row's fields being the escaped cell values
  joined by commas, and the rows are separated by CRLF: every row but the last is followed
  by the two characters CR LF, and nothing follows the last row. Stated as an equation: the
  text with one more CRLF appended is the sequence of the rows, each followed by CRLF.
\<close>

theorem C8_rows_separated:
  "generateCSV options @ [CR, LF] =
     concat (map (\<lambda>line. line @ [CR, LF])
       (join [comma] (map (\<lambda>col. escapeCSV (Some (header col))) (columns options)) #
        map (\<lambda>r. join [comma]
               (map (\<lambda>col. escapeCSV (getCellValue r (accessor col))) (columns options)))
            (data options)))"
  by (simp add: generateCSV_def Let_def join_terminated)

text \<open>
  A table with the one column \<open>ID\<close> and one row: the text is the two rows with one CRLF
  between them, and it is not the text in which each row is terminated by CRLF.
\<close>

theorem C8_rows_counterexample:
  "generateCSV
      \<lparr>columns = [\<lparr>col_id = ''id'', header = ''ID'', accessor = Key ''id''\<rparr>],
       data = [(\<lambda>k. if k = ''id'' then Some ''7'' else None)]\<rparr>
     = ''ID'' @ [CR, LF] @ ''7'' \<and>
   generateCSV
      \<lparr>columns = [\<lparr>col_id = ''id'', header = ''ID'', accessor = Key ''id''\<rparr>],
       data = [(\<lambda>k. if k = ''id'' then Some ''7'' else None)]\<rparr>
     \<noteq> concat (map (\<lambda>line. line @ [CR, LF]) [''ID'', ''7''])"
  by (simp add: generateCSV_def escapeCSV_def getCellValue_def)

subsection \<open>Round trip\<close>

text \<open>
  C3 (as amended). For every non-empty column list and every row list, provided the last
  row of the export (the header row when there is no data row) is not a single empty field,
  reading the text produced by \<open>generateCSV\<close> by the documented rules gives back exactly
  the header labels and, row by row, the cell values: for a cell that is a string, the
  string itself, whatever quotes, commas and line breaks it contains (and the empty string
  for a missing value). In every other case, an empty column list or a last row that is a
  single empty field, it does not give them back.
\<close>

theorem C3_roundtrip_amended:
  "spec_parseCSV (generateCSV options) =
     Some (map header (columns options) #
           map (\<lambda>r. map (\<lambda>col. cellText (getCellValue r (accessor col))) (columns options))
               (data options))
   \<longleftrightarrow>
   columns options \<noteq> [] \<and>
   last (map header (columns options) #
         map (\<lambda>r. map (\<lambda>col. cellText (getCellValue r (accessor col))) (columns options))
             (data options)) \<noteq> [[]]"
  using parse_generate_iff [of options] by (simp add: grid_def)

text \<open>
  Two columns, one read by key and one by function, and a row whose first cell is the
  seven characters \<^verbatim>\<open>"a,b"\<close>, line feed, \<^verbatim>\<open>c\<close>.
\<close>

theorem C3_roundtrip_witness:
  "spec_parseCSV (generateCSV
      \<lparr>columns = [\<lparr>col_id = ''note'', header = ''Note'', accessor = Key ''note''\<rparr>,
                  \<lparr>col_id = ''n'', header = ''N'', accessor = Fn (\<lambda>r. r ''count'')\<rparr>],
       data = [(\<lambda>k. if k = ''note''
                       then Some [dquote, CHR ''a'', comma, CHR ''b'', dquote, LF, CHR ''c'']
                       else if k = ''count'' then Some ''7'' else None)]\<rparr>)
   = Some [[''Note'', ''N''],
           [[dquote, CHR ''a'', comma, CHR ''b'', dquote, LF, CHR ''c''], ''7'']]"
  using C3_roundtrip_amended [of
      "\<lparr>columns = [\<lparr>col_id = ''note'', header = ''Note'', accessor = Key ''note''\<rparr>,
                  \<lparr>col_id = ''n'', header = ''N'', accessor = Fn (\<lambda>r. r ''count'')\<rparr>],
       data = [(\<lambda>k. if k = ''note''
                       then Some [dquote, CHR ''a'', comma, CHR ''b'', dquote, LF, CHR ''c'']
                       else if k = ''count'' then Some ''7'' else None)]\<rparr>"]
  by (simp add: cellText_def getCellValue_def)

text \<open>
  The round trip fails in two ways. With no column at all every row is the empty text: for
  a header and one data row the text is a single CRLF, which reads back as one row with one
  empty field and not as two rows with no field. And with the one column \<open>A\<close> and one row
  whose cell is the empty string the text is \<open>A\<close> CRLF, by the documented rule the complete
  text of the header row alone: the data row is not read back.
\<close>

theorem C3_roundtrip_counterexample:
  "spec_parseCSV (generateCSV \<lparr>columns = [], data = [\<lambda>k. None]\<rparr>) = Some [[[]]] \<and>
   grid \<lparr>columns = [], data = [\<lambda>k. None]\<rparr> = [[], []] \<and>
   spec_parseCSV (generateCSV
      \<lparr>columns = [\<lparr>col_id = ''a'', header = ''A'', accessor = Key ''a''\<rparr>],
       data = [\<lambda>k. Some []]\<rparr>) = Some [[''A'']] \<and>
   grid \<lparr>columns = [\<lparr>col_id = ''a'', header = ''A'', accessor = Key ''a''\<rparr>],
         data = [\<lambda>k. Some []]\<rparr> = [[''A''], [[]]] \<and>
   generateCSV \<lparr>columns = [\<lparr>col_id = ''a'', header = ''A'', accessor = Key ''a''\<rparr>],
                data = [\<lambda>k. Some []]\<rparr> = ''A'' @ [CR, LF]"
  by (simp add: spec_parseCSV_def generateCSV_def grid_def escapeCSV_def getCellValue_def
      cellText_def)

section \<open>Properties of the table hook\<close>

subsection \<open>Global filter\<close>

lemma str_includes_iff:
  "str_includes val search \<longleftrightarrow> (\<exists>pre post. val = pre @ search @ post)"
proof (induction val)
  case Nil
  then show ?case by auto
next
  case (Cons c cs)
  show ?case
  proof
    assume "str_includes (c # cs) search"
    then consider "prefix search (c # cs)" | "str_includes cs search" by auto
    then show "\<exists>pre post. c # cs = pre @ search @ post"
    proof cases
      case 1
      then obtain post where "c # cs = search @ post" by (auto simp: prefix_def)
      then have "c # cs = [] @ search @ post" by simp
      then show ?thesis by blast
    next
      case 2
      then obtain pre post where "cs = pre @ search @ post" using Cons.IH by blast
      then have "c # cs = (c # pre) @ search @ post" by simp
      then show ?thesis by blast
    qed
  next
    assume "\<exists>pre post. c # cs = pre @ search @ post"
    then obtain pre post where eq: "c # cs = pre @ search @ post" by blast
    show "str_includes (c # cs) search"
    proof (cases pre)
      case Nil
      then have "prefix search (c # cs)" using eq by (simp add: prefix_def)
      then show ?thesis by simp
    next
      case (Cons d pre')
      then have "cs = pre' @ search @ post" using eq by simp
      then have "str_includes cs search" using Cons.IH by blast
      then show ?thesis by simp
    qed
  qed
qed

lemma toLowerCase_Nil_iff: "toLowerCase s = [] \<longleftrightarrow> s = []"
  by (simp add: toLowerCase_def)

lemma cell_lower: "(case v of None \<Rightarrow> [] | Some s \<Rightarrow> toLowerCase s) = toLowerCase (cellText v)"
  by (cases v) (simp_all add: cellText_def toLowerCase_def)

lemma globalFilterFn_iff:
  "globalFilterFn r columnId filterValue \<longleftrightarrow>
     filterValue = [] \<or>
     (\<exists>v \<in> set (cellValues r).
        str_includes (toLowerCase (cellText v)) (toLowerCase filterValue))"
  by (auto simp: globalFilterFn_def Let_def list_ex_iff toLowerCase_Nil_iff cell_lower)

lemma null_cell_no_match:
  "filterValue \<noteq> [] \<Longrightarrow> \<not> str_includes (toLowerCase (cellText None)) (toLowerCase filterValue)"
  by (simp add: cellText_def toLowerCase_def)

text \<open>
  C5. The global filter function keeps a row if and only if the filter text is empty, or the
  lowercased string form of some cell value of the row contains the lowercased filter text
  as a substring. A cell whose value is null or undefined never produces a match for a
  non-empty filter text: leaving such cells out of the row does not change the result.
\<close>

theorem C5_global_filter:
  "(globalFilterFn r columnId filterValue \<longleftrightarrow>
      filterValue = [] \<or>
      (\<exists>v \<in> set (cellValues r). \<exists>pre post.
         toLowerCase (cellText v) = pre @ toLowerCase filterValue @ post)) \<and>
   (filterValue \<noteq> [] \<longrightarrow>
      globalFilterFn r columnId filterValue =
        globalFilterFn (r\<lparr>cellValues := filter (\<lambda>v. v \<noteq> None) (cellValues r)\<rparr>)
          columnId filterValue)"
proof
  show "globalFilterFn r columnId filterValue \<longleftrightarrow>
      filterValue = [] \<or>
      (\<exists>v \<in> set (cellValues r). \<exists>pre post.
         toLowerCase (cellText v) = pre @ toLowerCase filterValue @ post)"
    by (simp add: globalFilterFn_iff str_includes_iff)
  show "filterValue \<noteq> [] \<longrightarrow>
      globalFilterFn r columnId filterValue =
        globalFilterFn (r\<lparr>cellValues := filter (\<lambda>v. v \<noteq> None) (cellValues r)\<rparr>)
          columnId filterValue"
  proof
    assume ne: "filterValue \<noteq> []"
    have "\<And>v. str_includes (toLowerCase (cellText v)) (toLowerCase filterValue) \<Longrightarrow> v \<noteq> None"
    proof -
      fix v
      assume "str_includes (toLowerCase (cellText v)) (toLowerCase filterValue)"
      with null_cell_no_match [OF ne] show "v \<noteq> None" by (cases v) simp_all
    qed
    then show "globalFilterFn r columnId filterValue =
        globalFilterFn (r\<lparr>cellValues := filter (\<lambda>v. v \<noteq> None) (cellValues r)\<rparr>)
          columnId filterValue"
      by (auto simp: globalFilterFn_iff)
  qed
qed

text \<open>
  A row with a missing cell and the cell \<open>Hello World\<close> is kept for the filter text
  \<open>WORLD\<close>; a row of missing cells only is not.
\<close>

theorem C5_global_filter_witness:
  "globalFilterFn \<lparr>row_id = ''r1'', original = (), cellValues = [None, Some ''Hello World'']\<rparr>
      ''note'' ''WORLD'' \<and>
   (\<exists>pre post. toLowerCase ''Hello World'' = pre @ toLowerCase ''WORLD'' @ post) \<and>
   \<not> globalFilterFn \<lparr>row_id = ''r2'', original = (), cellValues = [None, None]\<rparr>
      ''note'' ''WORLD''"
  using C5_global_filter [of
      "\<lparr>row_id = ''r1'', original = (), cellValues = [None, Some ''Hello World'']\<rparr>"
      "''note''" "''WORLD''"]
    C5_global_filter [of
      "\<lparr>row_id = ''r2'', original = (), cellValues = [None, None]\<rparr>" "''note''" "''WORLD''"]
  by (simp add: globalFilterFn_def toLowerCase_def toLowerChar_def cellText_def)

subsection \<open>Clearing the filters\<close>

text \<open>
  C7. \<open>clearAllFilters\<close> sets the global filter to the empty string, empties the per-column
  filter list and resets \<open>pageIndex\<close> to 0, and leaves \<open>pageSize\<close>, the sorting state and
  the row-selection state unchanged.
\<close>

theorem C7_clearAllFilters:
  "globalFilter (clearAllFilters st) = [] \<and>
   columnFilters (clearAllFilters st) = [] \<and>
   pageIndex (pagination (clearAllFilters st)) = 0 \<and>
   pageSize (pagination (clearAllFilters st)) = pageSize (pagination st) \<and>
   sorting (clearAllFilters st) = sorting st \<and>
   rowSelection (clearAllFilters st) = rowSelection st"
  by (simp add: clearAllFilters_def)

subsection \<open>Stability of the sort\<close>

lemma insertRow_filter_other:
  "\<not> P x \<Longrightarrow> filter P (insertRow cmp x ys) = filter P ys"
  by (induction ys) simp_all

lemma insertRow_filter_tied:
  "P x \<Longrightarrow> \<forall>y \<in> set ys. P y \<longrightarrow> y = x \<or> cmp x y \<le> 0 \<Longrightarrow>
   filter P (insertRow cmp x ys) = x # filter P ys"
  by (induction ys) auto

lemma sortRows_Cons: "sortRows cmp (x # xs) = insertRow cmp x (sortRows cmp xs)"
  by (simp add: sortRows_def)

lemma sortRows_stable:
  assumes "\<forall>a \<in> S. \<forall>b \<in> S. cmp a b = 0"
  shows "filter (\<lambda>r. r \<in> S) (sortRows cmp rows) = filter (\<lambda>r. r \<in> S) rows"
proof (induction rows)
  case Nil
  then show ?case by (simp add: sortRows_def)
next
  case (Cons x xs)
  show ?case
  proof (cases "x \<in> S")
    case True
    have "\<forall>y \<in> set (sortRows cmp xs). y \<in> S \<longrightarrow> y = x \<or> cmp x y \<le> 0"
      using assms True by simp
    then have "filter (\<lambda>r. r \<in> S) (insertRow cmp x (sortRows cmp xs))
               = x # filter (\<lambda>r. r \<in> S) (sortRows cmp xs)"
      using True by (intro insertRow_filter_tied) simp_all
    then show ?thesis using True Cons.IH by (simp add: sortRows_Cons)
  next
    case False
    then show ?thesis using Cons.IH by (simp add: sortRows_Cons insertRow_filter_other)
  qed
qed

lemma insertRow_zero: "\<forall>y. cmp x y = 0 \<Longrightarrow> insertRow cmp x ys = x # ys"
  by (cases ys) simp_all

lemma sortRows_all_tie: "\<forall>x y. cmp x y = 0 \<Longrightarrow> sortRows cmp rows = rows"
  by (induction rows) (simp_all add: sortRows_Cons insertRow_zero sortRows_def)

lemma compareRows_zero_iff:
  "compareRows cols spec a b = 0 \<longleftrightarrow> keysTie cols spec a b"
  by (induction spec) (auto simp: keysTie_def Let_def split: option.splits)

text \<open>
  C6. Sorting is stable: for every dataset and every sort state, the rows of any set of rows
  that tie pairwise on all active sort keys appear in the sorted row model in the order
  they have in the row model that is sorted; with an empty sort state the sorted row model
  is that row model itself.
\<close>

theorem C6_sort_stable:
  "((\<forall>a \<in> S. \<forall>b \<in> S. keysTie (tableColumns options) (sorting st) a b) \<longrightarrow>
      filter (\<lambda>r. r \<in> S) (getSortedRowModel (useReactTable options st)) =
      filter (\<lambda>r. r \<in> S) (getFilteredRowModel (useReactTable options st))) \<and>
   (sorting st = [] \<longrightarrow>
      getSortedRowModel (useReactTable options st) =
      getFilteredRowModel (useReactTable options st))"
proof
  show "(\<forall>a \<in> S. \<forall>b \<in> S. keysTie (tableColumns options) (sorting st) a b) \<longrightarrow>
     filter (\<lambda>r. r \<in> S) (getSortedRowModel (useReactTable options st)) =
     filter (\<lambda>r. r \<in> S) (getFilteredRowModel (useReactTable options st))"
    by (simp add: useReactTable_def Let_def sortRows_stable compareRows_zero_iff)
  show "sorting st = [] \<longrightarrow>
     getSortedRowModel (useReactTable options st) =
     getFilteredRowModel (useReactTable options st)"
    by (simp add: useReactTable_def Let_def sortRows_all_tie)
qed

lemmas table_eval =
  useReactTable_def Let_def mkRow_def keepRow_def sortRows_def findColumn_def
  scenarioOptions_def sortedByValue_def valueColumn_def keysTie_def

text \<open>
  Three rows with the values 1, 0, 1, sorted by value: the row with 0 comes first, and the
  two rows with 1 keep their order. With an empty sort state nothing moves.
\<close>

theorem C6_sort_stable_witness:
  "map original (getSortedRowModel (useReactTable
      (scenarioOptions [(''a'', ''1'', 1), (''b'', ''0'', 0), (''c'', ''1'', 1)]) sortedByValue))
     = [(''b'', ''0'', 0), (''a'', ''1'', 1), (''c'', ''1'', 1)] \<and>
   map original (filter (\<lambda>r. r \<in> {r. snd (snd (original r)) = 1}) (getSortedRowModel (useReactTable
      (scenarioOptions [(''a'', ''1'', 1), (''b'', ''0'', 0), (''c'', ''1'', 1)]) sortedByValue)))
     = [(''a'', ''1'', 1), (''c'', ''1'', 1)] \<and>
   getSortedRowModel (useReactTable
      (scenarioOptions [(''a'', ''1'', 1), (''b'', ''0'', 0), (''c'', ''1'', 1)])
      (sortedByValue\<lparr>sorting := []\<rparr>))
     = getFilteredRowModel (useReactTable
      (scenarioOptions [(''a'', ''1'', 1), (''b'', ''0'', 0), (''c'', ''1'', 1)])
      (sortedByValue\<lparr>sorting := []\<rparr>))"
  using C6_sort_stable [of "{r. snd (snd (original r)) = 1}"
      "scenarioOptions [(''a'', ''1'', 1), (''b'', ''0'', 0), (''c'', ''1'', 1)]" sortedByValue]
    C6_sort_stable [of "{}"
      "scenarioOptions [(''a'', ''1'', 1), (''b'', ''0'', 0), (''c'', ''1'', 1)]"
      "sortedByValue\<lparr>sorting := []\<rparr>"]
  by (simp add: table_eval)

subsection \<open>The rows handed to the export\<close>

text \<open>
  C4 does not hold of the export handler. With no row selected it takes the rows of
  \<^verbatim>\<open>getFilteredRowModel()\<close>, the stage before sorting. For the rows a, b, c with the values
  3, 1, 2 and the table sorted by value, the view shows b, c, a and the export receives
  a, b, c.
\<close>

theorem C4_export_ignores_sorting:
  "exportData True (useReactTable
      (scenarioOptions [(''a'', ''3'', 3), (''b'', ''1'', 1), (''c'', ''2'', 2)]) sortedByValue)
     = [(''a'', ''3'', 3), (''b'', ''1'', 1), (''c'', ''2'', 2)] \<and>
   map original (getSortedRowModel (useReactTable
      (scenarioOptions [(''a'', ''3'', 3), (''b'', ''1'', 1), (''c'', ''2'', 2)]) sortedByValue))
     = [(''b'', ''1'', 1), (''c'', ''2'', 2), (''a'', ''3'', 3)] \<and>
   exportData True (useReactTable
      (scenarioOptions [(''a'', ''3'', 3), (''b'', ''1'', 1), (''c'', ''2'', 2)]) sortedByValue)
     \<noteq> map original (getSortedRowModel (useReactTable
      (scenarioOptions [(''a'', ''3'', 3), (''b'', ''1'', 1), (''c'', ''2'', 2)]) sortedByValue))"
  by (simp add: table_eval exportData_def selectedRows_def)

end
